theory Spec2Isabelle
  imports Complex_Main
begin

section \<open>Parameter tying (GPy/core/parameterization/ties\_and\_remappings.py)\<close>

text \<open>
  A shallow embedding of class \<open>Tie\<close>. The parameter tree, \<open>Param\<close> and numpy are
  not part of the file; what the embedding takes from them is written at the definition
  that needs it. Scope of the embedding:
  \<^item> parameter values and gradients are real numbers (float64 rounding and NaN are not
    modelled), labels are natural numbers (no wrap-around at the integer width);
  \<^item> no leaf carries a constraint, so \<open>_sync_constraint_group\<close> and
    \<open>_sync_constraint_vector\<close> change nothing (the latter still evaluates its
    arguments, see \<open>tie_vector\<close>);
  \<^item> the lists handed to the public operations name leaves of the tree other than the
    Tie's own \<open>tied_param\<close>.
\<close>

subsection \<open>Data model\<close>

datatype error =
  ValueError | IndexError | AttributeError | TypeError | UnboundLocalError | AssertionError

text \<open>
  A \<open>Param\<close> keeps three arrays of one shape: \<open>param_array\<close>, \<open>tie\<close> and
  \<open>gradient\<close>. Read in flat order they are one list of cells.
\<close>

record cell =
  val :: real
  tie :: nat
  grad :: real

type_synonym param = "cell list"

text \<open>
  What \<open>_traverse_param\<close> walks: a \<open>Param\<close> (named by its index among the ordinary
  leaves of the tree) or a \<open>Parameterized\<close> node with its \<open>parameters\<close>.
\<close>

datatype ptree = Param nat | Parameterized "ptree list"

text \<open>
  The state of the highest parent and of its Tie object. \<open>params\<close> are the leaves of the
  tree except \<open>tied_param\<close>, in traversal order; \<open>tie_offset\<close> is the number of
  flattened positions that precede the Tie object (fixed when the Tie was linked into the
  tree). \<open>uninit\<close> and \<open>uninit_grad\<close> stand for whatever \<open>np.empty\<close> and a fresh
  \<open>Param\<close> hold before they are written.
\<close>

record tstate =
  params :: "param list"
  tie_offset :: nat
  tied_param :: "param option"
  label_buf :: "nat list option"
  buf_idx :: "nat list option"
  untie_mask :: "bool list option"
  PROPAGATE_VAL :: bool
  update_on :: bool
  optimizer_copy_transformed :: bool
  uninit :: "nat \<Rightarrow> real"
  uninit_grad :: "nat \<Rightarrow> real"

text \<open>An exception leaves the state as it was mutated so far.\<close>

type_synonym 'a result = "(error \<times> tstate) + 'a"

definition rbind :: "'a result \<Rightarrow> ('a \<Rightarrow> 'b result) \<Rightarrow> 'b result" where
  "rbind r f = (case r of Inl e \<Rightarrow> Inl e | Inr x \<Rightarrow> f x)"

definition raise_in :: "tstate \<Rightarrow> error + 'a \<Rightarrow> 'a result" where
  "raise_in s r = (case r of Inl e \<Rightarrow> Inl (e, s) | Inr x \<Rightarrow> Inr x)"

subsection \<open>The flattened tree\<close>

definition leaf :: "tstate \<Rightarrow> nat \<Rightarrow> param" where
  "leaf s k = (if k < length (params s) then params s ! k else [])"

definition set_leaf :: "tstate \<Rightarrow> nat \<Rightarrow> param \<Rightarrow> tstate" where
  "set_leaf s k p = s\<lparr>params := (params s)[k := p]\<rparr>"

definition tied_cells :: "tstate \<Rightarrow> param" where
  "tied_cells s = (case tied_param s of None \<Rightarrow> [] | Some t \<Rightarrow> t)"

definition tie_start :: "tstate \<Rightarrow> nat" where
  "tie_start s = min (tie_offset s) (length (concat (params s)))"

text \<open>
  All cells of the highest parent in flattened order: \<open>param_array\<close>, \<open>gradient\<close> and
  the labels that \<open>_update_label_buf\<close> collects are its three columns.
\<close>

definition flat_cells :: "tstate \<Rightarrow> cell list" where
  "flat_cells s =
     take (tie_start s) (concat (params s)) @ tied_cells s @
     drop (tie_start s) (concat (params s))"

definition param_array :: "tstate \<Rightarrow> real list" where
  "param_array s = map val (flat_cells s)"

definition gradient :: "tstate \<Rightarrow> real list" where
  "gradient s = map grad (flat_cells s)"

definition set_vals :: "param \<Rightarrow> real list \<Rightarrow> param" where
  "set_vals p vs = map2 (\<lambda>c v. c\<lparr>val := v\<rparr>) p vs"

definition set_grads :: "param \<Rightarrow> real list \<Rightarrow> param" where
  "set_grads p gs = map2 (\<lambda>c g. c\<lparr>grad := g\<rparr>) p gs"

fun split_like :: "'a list list \<Rightarrow> 'b list \<Rightarrow> 'b list list" where
  "split_like [] vs = []"
| "split_like (p # ps) vs = take (length p) vs # split_like ps (drop (length p) vs)"

text \<open>Writing the flattened value vector writes the cells of the leaves it is a view of.\<close>

definition set_param_array :: "tstate \<Rightarrow> real list \<Rightarrow> tstate" where
  "set_param_array s vs =
     (let a = tie_start s; n = length (tied_cells s)
      in s\<lparr>params := map2 set_vals (params s)
                        (split_like (params s) (take a vs @ drop (a + n) vs)),
            tied_param := map_option (\<lambda>t. set_vals t (take n (drop a vs))) (tied_param s)\<rparr>)"

definition set_gradient :: "tstate \<Rightarrow> real list \<Rightarrow> tstate" where
  "set_gradient s gs =
     (let a = tie_start s; n = length (tied_cells s)
      in s\<lparr>params := map2 set_grads (params s)
                        (split_like (params s) (take a gs @ drop (a + n) gs)),
            tied_param := map_option (\<lambda>t. set_grads t (take n (drop a gs))) (tied_param s)\<rparr>)"

subsection \<open>numpy\<close>

definition np_unique :: "nat list \<Rightarrow> nat list" where
  "np_unique xs = sort (remdups xs)"

definition mean :: "real list \<Rightarrow> real" where
  "mean xs = sum_list xs / real (length xs)"

text \<open>\<open>a[mask]\<close> and \<open>a[mask] = v\<close> for a mask of the length of \<open>a\<close>.\<close>

definition select :: "bool list \<Rightarrow> 'a list \<Rightarrow> 'a list" where
  "select m xs = map snd (filter fst (zip m xs))"

definition assign_mask :: "bool list \<Rightarrow> 'a list \<Rightarrow> 'a \<Rightarrow> 'a list" where
  "assign_mask m xs v = map2 (\<lambda>b x. if b then v else x) m xs"

definition where_true :: "bool list \<Rightarrow> nat list" where
  "where_true m = filter (\<lambda>i. m ! i) [0..<length m]"

text \<open>
  \<open>a[:] = b\<close> for one-dimensional arrays: \<open>b\<close> has the length of \<open>a\<close> or length 1
  (broadcast), anything else raises.
\<close>

definition broadcast_to :: "nat \<Rightarrow> 'a list \<Rightarrow> error + 'a list" where
  "broadcast_to m xs =
     (if length xs = m then Inr xs
      else if length xs = 1 then Inr (replicate m (hd xs))
      else Inl ValueError)"

text \<open>
  \<open>a.flat[:] = b\<close>: the flat iterator takes the values of \<open>b\<close> in turn and starts
  over when they run out; an empty \<open>b\<close> writes nothing.
\<close>

definition flat_fill :: "nat \<Rightarrow> 'a list \<Rightarrow> 'a list \<Rightarrow> 'a list" where
  "flat_fill n old vs =
     (if vs = [] then old else map (\<lambda>i. vs ! (i mod length vs)) [0..<n])"

subsection \<open>Traversal and the label manager\<close>

fun traverse_param :: "ptree \<Rightarrow> nat list" where
  "traverse_param (Param k) = [k]"
| "traverse_param (Parameterized ps) = concat (map traverse_param ps)"

definition leaves_of :: "ptree list \<Rightarrow> nat list" where
  "leaves_of plist = concat (map traverse_param plist)"

definition get_labels :: "tstate \<Rightarrow> ptree list \<Rightarrow> error + nat list" where
  "get_labels s plist =
     (let labels = map (\<lambda>k. map tie (leaf s k)) (leaves_of plist)
      in if labels = [] then Inl ValueError else Inr (np_unique (concat labels)))"

text \<open>
  \<open>label1 * label2\<close> broadcasts when one side has length 1 and raises \<open>ValueError\<close> for
  other unequal lengths; after a broadcast \<open>labellist[idx] = label2[idx]\<close> indexes an
  array with a mask of another length, which raises \<open>IndexError\<close> (numpy 1.13 and
  later). Only equal lengths get past both.
\<close>

definition get_labels_vector ::
  "tstate \<Rightarrow> ptree \<Rightarrow> ptree \<Rightarrow> error + (nat list \<times> (nat list \<times> nat list) \<times> nat list)" where
  "get_labels_vector s p1 p2 =
     (let l1 = map (\<lambda>k. map tie (leaf s k)) (traverse_param p1);
          l2 = map (\<lambda>k. map tie (leaf s k)) (traverse_param p2)
      in if l1 = [] \<or> l2 = [] then Inl ValueError
         else
           let label1 = concat l1; label2 = concat l2
           in if length label1 \<noteq> length label2 then
                (if length label1 = 1 \<or> length label2 = 1 then Inl IndexError
                 else Inl ValueError)
              else
                let expandlist = where_true (map2 (\<lambda>a b. a * b = 0) label1 label2);
                    labellist = map2 (\<lambda>a b. if a = 0 \<and> b > 0 then b else a) label1 label2;
                    idx' = map2 (\<lambda>a b. a * b > 0 \<and> a \<noteq> b) label1 label2;
                    removelist = (select idx' label1, select idx' label2)
                in Inr (expandlist, removelist, labellist))"

text \<open>
  \<open>_set_labels\<close>: one label goes to every cell of every leaf; otherwise every element
  of \<open>plist\<close> starts at offset 0 and its leaves take their slices in turn.
\<close>

definition set_l1 :: "nat \<Rightarrow> tstate \<Rightarrow> nat \<Rightarrow> tstate" where
  "set_l1 l s k = set_leaf s k (map (\<lambda>c. c\<lparr>tie := l\<rparr>) (leaf s k))"

definition set_tie_flat :: "param \<Rightarrow> nat list \<Rightarrow> param" where
  "set_tie_flat p ls = map2 (\<lambda>c l. c\<lparr>tie := l\<rparr>) p (flat_fill (length p) (map tie p) ls)"

definition set_list :: "nat list \<Rightarrow> tstate \<times> nat \<Rightarrow> nat \<Rightarrow> tstate \<times> nat" where
  "set_list labels so k =
     (let s = fst so; offset = snd so; p = leaf s k
      in (set_leaf s k (set_tie_flat p (take (length p) (drop offset labels))),
          offset + length p))"

definition set_labels :: "tstate \<Rightarrow> ptree list \<Rightarrow> nat list \<Rightarrow> tstate" where
  "set_labels s plist labels =
     (if length labels = 1 then foldl (set_l1 (hd labels)) s (leaves_of plist)
      else foldl (\<lambda>s p. fst (foldl (set_list labels) (s, 0) (traverse_param p))) s plist)"

definition get_vals :: "tstate \<Rightarrow> ptree \<Rightarrow> error + real list" where
  "get_vals s p =
     (let vals = map (\<lambda>k. map val (leaf s k)) (traverse_param p)
      in if vals = [] then Inl ValueError else Inr (concat vals))"

definition set_val_flat :: "param \<Rightarrow> real list \<Rightarrow> param" where
  "set_val_flat p vs = map2 (\<lambda>c v. c\<lparr>val := v\<rparr>) p (flat_fill (length p) (map val p) vs)"

definition set_val_slice :: "real list \<Rightarrow> tstate \<times> nat \<Rightarrow> nat \<Rightarrow> tstate \<times> nat" where
  "set_val_slice p2 so k =
     (let s = fst so; offset = snd so; p = leaf s k
      in (set_leaf s k (set_val_flat p (take (length p) (drop offset p2))),
          offset + length p))"

definition sync_val_pair :: "tstate \<Rightarrow> ptree \<Rightarrow> ptree \<Rightarrow> (real list \<times> tstate) result" where
  "sync_val_pair s p1 p2 =
     rbind (raise_in s (get_vals s p1))
       (\<lambda>p1val. Inr (p1val, fst (foldl (set_val_slice p1val) (s, 0) (traverse_param p2))))"

definition set_val :: "real \<Rightarrow> tstate \<Rightarrow> nat \<Rightarrow> tstate" where
  "set_val v s k = set_leaf s k (map (\<lambda>c. c\<lparr>val := v\<rparr>) (leaf s k))"

definition sync_val_group :: "tstate \<Rightarrow> ptree list \<Rightarrow> (real \<times> tstate) result" where
  "sync_val_group s plist =
     (if plist = [] then Inl (ValueError, s)
      else
        let v = mean (concat (map (\<lambda>p. concat (map (\<lambda>k. map val (leaf s k)) (traverse_param p)))
                               plist))
        in Inr (v, foldl (set_val v) s (leaves_of plist)))"

text \<open>
  \<open>_replace_labels\<close> on the highest parent: every leaf of the tree, \<open>tied_param\<close>
  among them, goes through the pairs in order.
\<close>

definition replace_l :: "(nat \<times> nat) list \<Rightarrow> param \<Rightarrow> param" where
  "replace_l label_pairs p =
     foldl (\<lambda>p (l1, l2). map (\<lambda>c. if tie c = l1 then c\<lparr>tie := l2\<rparr> else c) p) p label_pairs"

definition replace_labels :: "tstate \<Rightarrow> (nat \<times> nat) list \<Rightarrow> tstate" where
  "replace_labels s label_pairs =
     s\<lparr>params := map (replace_l label_pairs) (params s),
       tied_param := map_option (replace_l label_pairs) (tied_param s)\<rparr>"

subsection \<open>The canonical slot store\<close>

text \<open>
  \<open>_expand_tie_param\<close>. The new \<open>Param\<close> copies the old values and labels; its
  gradient is a new array. \<open>tie.max()\<close> of an empty array raises. Linking the new
  \<open>Param\<close> puts it where the old one was.
\<close>

definition fresh_cells :: "tstate \<Rightarrow> nat \<Rightarrow> real list \<Rightarrow> nat list \<Rightarrow> param" where
  "fresh_cells s off vs ls =
     map (\<lambda>i. \<lparr>val = vs ! i, tie = ls ! i, grad = uninit_grad s (off + i)\<rparr>) [0..<length vs]"

definition expand_tie_param :: "tstate \<Rightarrow> nat \<Rightarrow> ((nat list \<times> nat list) \<times> tstate) result" where
  "expand_tie_param s num =
     (case tied_param s of
        None \<Rightarrow>
          let start_label = 1;
              labellist = [start_label..<start_label + num];
              idxlist = [0..<num];
              new_buf = map (uninit s) [0..<num]
          in Inr ((labellist, idxlist), s\<lparr>tied_param := Some (fresh_cells s 0 new_buf labellist)\<rparr>)
      | Some t \<Rightarrow>
          if t = [] then Inl (ValueError, s)
          else
            let start_label = Max (set (map tie t)) + 1;
                old_size = length t;
                new_buf = map val t @ map (uninit s) [old_size..<old_size + num];
                labellist = [start_label..<start_label + num];
                idxlist = [old_size..<old_size + num]
            in Inr ((labellist, idxlist),
                    s\<lparr>tied_param := Some (fresh_cells s 0 new_buf (map tie t @ labellist))\<rparr>))"

text \<open>
  \<open>_remove_tie_param\<close>. The size test counts the labels it was given;
  \<open>np.empty\<close> of a negative size and a copy between arrays of different lengths raise
  before \<open>tied_param\<close> is replaced.
\<close>

definition remove_tie_param :: "tstate \<Rightarrow> nat list \<Rightarrow> tstate result" where
  "remove_tie_param s labels =
     (case tied_param s of
        None \<Rightarrow> Inl (AttributeError, s)
      | Some t \<Rightarrow>
          if length labels = length t then Inr (s\<lparr>tied_param := None\<rparr>)
          else if length t < length labels then Inl (ValueError, s)
          else
            let m = length t - length labels;
                idx = map (\<lambda>c. tie c \<notin> set labels) t
            in rbind (raise_in s (broadcast_to m (select idx (map val t))))
                 (\<lambda>new_buf. rbind (raise_in s (broadcast_to m (select idx (map tie t))))
                    (\<lambda>new_tie. Inr (s\<lparr>tied_param := Some (fresh_cells s 0 new_buf new_tie)\<rparr>))))"

definition merge_tie_labels :: "tstate \<Rightarrow> nat list \<Rightarrow> tstate result" where
  "merge_tie_labels s labels =
     (if length labels < 2 then Inr s
      else rbind (remove_tie_param s (tl labels))
             (\<lambda>s'. Inr (replace_labels s' (map (\<lambda>l. (l, hd labels)) (tl labels)))))"

definition merge_tie_labelpair :: "tstate \<Rightarrow> nat list \<times> nat list \<Rightarrow> tstate result" where
  "merge_tie_labelpair s labelpair =
     rbind (remove_tie_param s (snd labelpair))
       (\<lambda>s'. Inr (replace_labels s' (zip (snd labelpair) (fst labelpair))))"

text \<open>
  \<open>_remove_unnecessary_ties\<close>. Without a label buffer \<open>(self.label_buf==l).sum()\<close>
  is \<open>sum\<close> of a bool, which raises.
\<close>

definition remove_unnecessary_ties :: "tstate \<Rightarrow> tstate result" where
  "remove_unnecessary_ties s =
     (case tied_param s of
        None \<Rightarrow> Inr s
      | Some t \<Rightarrow>
          if t = [] then Inr s
          else
            (case label_buf s of
               None \<Rightarrow> Inl (AttributeError, s)
             | Some lb \<Rightarrow>
                 let labels = filter (\<lambda>l. length (filter (\<lambda>x. x = l) lb) \<le> 2) (map tie t)
                 in if labels \<noteq> [] then
                      rbind (remove_tie_param s labels)
                        (\<lambda>s'. Inr (replace_labels s' (zip labels (replicate (length labels) 0))))
                    else Inr s))"

text \<open>
  \<open>_update_label_buf\<close>. \<open>_raveled_index_for\<close> of a leaf is the range of its cells
  in the flattened tree; the assertion comes after the three assignments.
\<close>

definition update_label_buf :: "tstate \<Rightarrow> tstate result" where
  "update_label_buf s =
     (case tied_param s of
        None \<Rightarrow> Inr (s\<lparr>label_buf := None, buf_idx := None, untie_mask := None\<rparr>)
      | Some t \<Rightarrow>
          let lb = map tie (flat_cells s);
              bi = [tie_start s..<tie_start s + length t];
              un = map (\<lambda>i. lb ! i = 0 \<or> i \<in> set bi) [0..<length lb];
              s' = s\<lparr>label_buf := Some lb, buf_idx := Some bi, untie_mask := Some un\<rparr>
          in if \<forall>c \<in> set t. 0 < tie c then Inr s' else Inl (AssertionError, s'))"

subsection \<open>Change detection and gradient collation\<close>

text \<open>
  One round of the loop of \<open>_check_change\<close> on the flattened value vector \<open>pa\<close>.
  \<open>tied_param[i]\<close> is the cell \<open>a + i\<close> of that vector, \<open>a\<close> being where the
  store begins. An index outside the label buffer and a mask of another length than the
  array raise \<open>IndexError\<close>.
\<close>

definition check_group ::
  "nat list \<Rightarrow> nat list \<Rightarrow> nat \<Rightarrow> nat \<Rightarrow> real list \<Rightarrow> error + (bool \<times> real list)" where
  "check_group lb bi a i pa =
     (if length bi \<le> i then Inl IndexError
      else if length lb \<le> bi ! i then Inl IndexError
      else
        let b0 = map (\<lambda>l. l = lb ! (bi ! i)) lb
        in if length b0 \<noteq> length pa then Inl IndexError
           else
             let b = map (\<lambda>x. x \<noteq> pa ! (a + i)) (select b0 pa)
             in if length (filter id b) = 0 then Inr (False, pa)
                else if length (filter id b) = 1 then
                  Inr (True, assign_mask b0 pa (hd (select b (select b0 pa))))
                else Inr (True, assign_mask b0 pa (pa ! (a + i))))"

fun check_loop ::
  "nat list \<Rightarrow> nat list \<Rightarrow> nat \<Rightarrow> nat list \<Rightarrow> bool \<Rightarrow> real list
     \<Rightarrow> (error \<times> real list) + (bool \<times> real list)" where
  "check_loop lb bi a [] changed pa = Inr (changed, pa)"
| "check_loop lb bi a (i # is) changed pa =
     (case check_group lb bi a i pa of
        Inl e \<Rightarrow> Inl (e, pa)
      | Inr (c, pa') \<Rightarrow> check_loop lb bi a is (changed \<or> c) pa')"

definition check_change :: "tstate \<Rightarrow> (bool \<times> tstate) result" where
  "check_change s =
     (case tied_param s of
        None \<Rightarrow> Inr (False, s)
      | Some t \<Rightarrow>
          if t = [] then Inr (False, s)
          else
            (case (label_buf s, buf_idx s) of
               (Some lb, Some bi) \<Rightarrow>
                 (case check_loop lb bi (tie_start s) [0..<length t] False (param_array s) of
                    Inl (e, pa) \<Rightarrow> Inl (e, set_param_array s pa)
                  | Inr (changed, pa) \<Rightarrow> Inr (changed, set_param_array s pa))
             | _ \<Rightarrow> Inl (TypeError, s)))"

text \<open>
  \<open>collate_gradient\<close> on the flattened gradient vector \<open>g\<close>: the store's gradients
  are zeroed, then every slot takes the sum over the positions carrying its label.
\<close>

definition collate_group ::
  "nat list \<Rightarrow> nat list \<Rightarrow> nat \<Rightarrow> nat \<Rightarrow> real list \<Rightarrow> error + real list" where
  "collate_group lb bi a i g =
     (if length bi \<le> i then Inl IndexError
      else if length lb \<le> bi ! i then Inl IndexError
      else
        let b0 = map (\<lambda>l. l = lb ! (bi ! i)) lb
        in if length b0 \<noteq> length g then Inl IndexError
           else Inr (g[a + i := sum_list (select b0 g)]))"

fun collate_loop ::
  "nat list \<Rightarrow> nat list \<Rightarrow> nat \<Rightarrow> nat list \<Rightarrow> real list \<Rightarrow> (error \<times> real list) + real list" where
  "collate_loop lb bi a [] g = Inr g"
| "collate_loop lb bi a (i # is) g =
     (case collate_group lb bi a i g of
        Inl e \<Rightarrow> Inl (e, g)
      | Inr g' \<Rightarrow> collate_loop lb bi a is g')"

definition zero_tied_gradient :: "tstate \<Rightarrow> tstate" where
  "zero_tied_gradient s = s\<lparr>tied_param := map_option (map (\<lambda>c. c\<lparr>grad := 0\<rparr>)) (tied_param s)\<rparr>"

definition collate_gradient :: "tstate \<Rightarrow> tstate result" where
  "collate_gradient s =
     (case tied_param s of
        None \<Rightarrow> Inr s
      | Some t \<Rightarrow>
          let s0 = zero_tied_gradient s
          in if t = [] then Inr s0
             else
               (case (label_buf s, buf_idx s) of
                  (Some lb, Some bi) \<Rightarrow>
                    (case collate_loop lb bi (tie_start s) [0..<length t] (gradient s0) of
                       Inl (e, g) \<Rightarrow> Inl (e, set_gradient s0 g)
                     | Inr g \<Rightarrow> Inr (set_gradient s0 g))
                | _ \<Rightarrow> Inl (TypeError, s0)))"

definition propagate_step :: "nat list \<Rightarrow> nat list \<Rightarrow> nat \<Rightarrow> nat \<Rightarrow> real list \<Rightarrow> error + real list" where
  "propagate_step lb bi a i pa =
     (if length bi \<le> i then Inl IndexError
      else if length lb \<le> bi ! i then Inl IndexError
      else
        let b0 = map (\<lambda>l. l = lb ! (bi ! i)) lb
        in if length b0 \<noteq> length pa then Inl IndexError
           else Inr (assign_mask b0 pa (pa ! (a + i))))"

text \<open>
  Modelled from the spec: \<open>_trigger_params_changed\<close> of the highest parent and the
  notification that follows it are not in the file. ``Returns whether any group required
  correction; if so, the tree's recompute is re-triggered'': the re-triggered recompute
  notifies the observers of the tree, the Tie among them, with the tree as the
  originator, so \<open>_parameters_changed_notification\<close> runs \<open>parameters_changed\<close>
  again. The recursion ends when \<open>_check_change\<close> finds nothing to correct; a run that
  never ends is \<open>None\<close>.
\<close>

partial_function (option) parameters_changed :: "tstate \<Rightarrow> tstate result option" where
  "parameters_changed s =
     (if PROPAGATE_VAL s then Some (collate_gradient (s\<lparr>PROPAGATE_VAL := False\<rparr>))
      else
        (case check_change s of
           Inl e \<Rightarrow> Some (Inl e)
         | Inr (changed, s1) \<Rightarrow>
             if changed then
               Option.bind (parameters_changed (s1\<lparr>optimizer_copy_transformed := False\<rparr>))
                 (\<lambda>r. case r of Inl e \<Rightarrow> Some (Inl e) | Inr s2 \<Rightarrow> Some (collate_gradient s2))
             else Some (collate_gradient s1)))"

declare parameters_changed.simps [code]

text \<open>Who a notification names as its originator (\<open>which\<close>): the Tie object or another.\<close>

datatype origin = Self | Other

definition parameters_changed_notification :: "tstate \<Rightarrow> origin \<Rightarrow> tstate result option" where
  "parameters_changed_notification s which =
     (if which \<noteq> Self then parameters_changed (s\<lparr>optimizer_copy_transformed := False\<rparr>)
      else Some (Inr s))"

text \<open>
  Modelled from the spec: \<open>update_model\<close> is not in the file. ``Public operations
  suspend tree-wide recompute, mutate, then resume recompute, which fires a change
  notification''; while recompute is suspended no observer is notified. The operations
  call it on the Tie object itself (\<open>self.update_model(True)\<close>), so the notification
  names the Tie as its originator, and the handler of lines 393 to 396 does not act on
  it: no check runs and the one-shot flag is not consumed.
\<close>

definition update_model :: "tstate \<Rightarrow> bool \<Rightarrow> tstate result option" where
  "update_model s updates =
     (if updates then parameters_changed_notification (s\<lparr>update_on := True\<rparr>) Self
      else Some (Inr (s\<lparr>update_on := False\<rparr>)))"

definition resume :: "tstate result \<Rightarrow> tstate result option" where
  "resume r = (case r of Inl e \<Rightarrow> Some (Inl e) | Inr s \<Rightarrow> update_model s True)"

fun propagate_loop ::
  "nat list \<Rightarrow> nat list \<Rightarrow> nat \<Rightarrow> nat list \<Rightarrow> real list \<Rightarrow> (error \<times> real list) + real list" where
  "propagate_loop lb bi a [] pa = Inr pa"
| "propagate_loop lb bi a (i # is) pa =
     (case propagate_step lb bi a i pa of
        Inl e \<Rightarrow> Inl (e, pa)
      | Inr pa' \<Rightarrow> propagate_loop lb bi a is pa')"

definition propagate_val :: "tstate \<Rightarrow> tstate result" where
  "propagate_val s =
     (case tied_param s of
        None \<Rightarrow> Inr (s\<lparr>PROPAGATE_VAL := True\<rparr>)
      | Some t \<Rightarrow>
          if t = [] then Inr (s\<lparr>PROPAGATE_VAL := True\<rparr>)
          else
            (case (label_buf s, buf_idx s) of
               (Some lb, Some bi) \<Rightarrow>
                 (case propagate_loop lb bi (tie_start s) [0..<length t] (param_array s) of
                    Inl (e, pa) \<Rightarrow> Inl (e, set_param_array s pa)
                  | Inr pa \<Rightarrow> Inr ((set_param_array s pa)\<lparr>PROPAGATE_VAL := True\<rparr>))
             | _ \<Rightarrow> Inl (TypeError, s)))"

subsection \<open>The public operations\<close>

text \<open>\<open>tied_param[tied_param.tie == l] = v\<close>.\<close>

definition set_tied_where :: "tstate \<Rightarrow> nat \<Rightarrow> real \<Rightarrow> tstate result" where
  "set_tied_where s l v =
     (case tied_param s of
        None \<Rightarrow> Inl (AttributeError, s)
      | Some t \<Rightarrow>
          Inr (s\<lparr>tied_param := Some (map (\<lambda>c. if tie c = l then c\<lparr>val := v\<rparr> else c) t)\<rparr>))"

text \<open>
  \<open>tie_together\<close>, lines 327 to 331: none of the parameters has been tied before. Without
  constraints \<open>_sync_constraint_group\<close> returns \<open>None\<close> and nothing is constrained.
\<close>

definition tie_together_untied :: "tstate \<Rightarrow> ptree list \<Rightarrow> (nat list \<times> tstate) result" where
  "tie_together_untied s plist =
     rbind (expand_tie_param s 1) (\<lambda>((tie_labels, idxlist), s2).
       Inr (tie_labels, set_labels s2 plist tie_labels))"

text \<open>
  \<open>tie_together\<close>, lines 335 to 341: some parameters are tied already. Reading
  \<open>self.tied_param.tie\<close> raises when there is no store.
\<close>

definition tie_together_tied ::
  "tstate \<Rightarrow> ptree list \<Rightarrow> nat list \<Rightarrow> (nat list \<times> tstate) result" where
  "tie_together_tied s plist labels =
     (let tie_labels = filter (\<lambda>l. 0 < l) labels
      in rbind (if 1 < length tie_labels then merge_tie_labels s tie_labels else Inr s)
           (\<lambda>s2. let s3 = set_labels s2 plist [hd tie_labels]
                 in if tied_param s3 = None then Inl (AttributeError, s3)
                    else Inr (tie_labels, s3)))"

text \<open>Lines 323 to 343 of \<open>tie_together\<close>, between the two calls of \<open>update_model\<close>.\<close>

definition tie_together_body :: "tstate \<Rightarrow> ptree list \<Rightarrow> tstate result" where
  "tie_together_body s plist =
     rbind (raise_in s (get_labels s plist)) (\<lambda>labels.
     rbind (sync_val_group s plist) (\<lambda>(v, s1).
       if labels = [] then Inl (IndexError, s1)
       else
         rbind
           (if hd labels = 0 \<and> length labels = 1 then tie_together_untied s1 plist
            else tie_together_tied s1 plist labels)
           (\<lambda>(tie_labels, s4).
              rbind (update_label_buf s4) (\<lambda>s5. set_tied_where s5 (hd tie_labels) v))))"

definition tie_together :: "tstate \<Rightarrow> ptree list \<Rightarrow> tstate result option" where
  "tie_together s plist =
     Option.bind (update_model s False)
       (\<lambda>r. resume (rbind r (\<lambda>s0. tie_together_body s0 plist)))"

text \<open>\<open>a[idx] = vs\<close> and \<open>a[idx]\<close> for a list of positions.\<close>

definition scatter :: "'a list \<Rightarrow> nat list \<Rightarrow> 'a list \<Rightarrow> 'a list" where
  "scatter xs idx vs = foldl (\<lambda>a (i, v). a[i := v]) xs (zip idx vs)"

definition gather :: "'a list \<Rightarrow> nat list \<Rightarrow> 'a list" where
  "gather xs idx = map (\<lambda>i. xs ! i) idx"

text \<open>
  Lines 349 to 359 of \<open>tie_vector\<close>. \<open>idxlist\<close> is bound only when \<open>expandlist\<close> is
  not empty; the call of \<open>_sync_constraint_vector\<close> reads it in either case.
\<close>

definition tie_vector_body :: "tstate \<Rightarrow> ptree \<Rightarrow> ptree \<Rightarrow> tstate result" where
  "tie_vector_body s p1 p2 =
     rbind (raise_in s (get_labels_vector s p1 p2)) (\<lambda>(expandlist, removelist, labellist).
     rbind (sync_val_pair s p1 p2) (\<lambda>(p1vals, s1).
     rbind
       (if expandlist \<noteq> [] then
          rbind (expand_tie_param s1 (length expandlist)) (\<lambda>((tie_labels, idxlist), s2).
            Inr (Some idxlist, scatter labellist expandlist tie_labels,
                 s2\<lparr>tied_param :=
                      map_option (\<lambda>t. set_vals t (scatter (map val t) idxlist (gather p1vals expandlist)))
                        (tied_param s2)\<rparr>))
        else Inr (None, labellist, s1))
       (\<lambda>(idxlist, labellist', s3).
          rbind (if fst removelist \<noteq> [] then merge_tie_labelpair s3 removelist else Inr s3)
            (\<lambda>s4. let s5 = set_labels s4 [p1, p2] labellist'
                  in if idxlist = None then Inl (UnboundLocalError, s5)
                     else update_label_buf s5))))"

definition tie_vector :: "tstate \<Rightarrow> ptree \<Rightarrow> ptree \<Rightarrow> tstate result option" where
  "tie_vector s p1 p2 =
     Option.bind (update_model s False)
       (\<lambda>r. resume (rbind r (\<lambda>s0. tie_vector_body s0 p1 p2)))"

text \<open>Lines 365 to 368 of \<open>untie\<close>.\<close>

definition untie_body :: "tstate \<Rightarrow> ptree list \<Rightarrow> tstate result" where
  "untie_body s plist =
     rbind (update_label_buf (set_labels s plist [0])) (\<lambda>s1.
     rbind (remove_unnecessary_ties s1) (\<lambda>s2. update_label_buf s2))"

definition untie :: "tstate \<Rightarrow> ptree list \<Rightarrow> tstate result option" where
  "untie s plist =
     Option.bind (update_model s False)
       (\<lambda>r. resume (rbind r (\<lambda>s0. untie_body s0 plist)))"

subsection \<open>Example states\<close>

definition example_cell :: "real \<Rightarrow> nat \<Rightarrow> real \<Rightarrow> cell" where
  "example_cell v l g = \<lparr>val = v, tie = l, grad = g\<rparr>"

text \<open>Two untied scalar leaves holding 2 and 4; no tie has been made yet.\<close>

definition example_free :: tstate where
  "example_free =
     \<lparr>params = [[example_cell 2 0 0], [example_cell 4 0 0]], tie_offset = 2, tied_param = None,
      label_buf = None, buf_idx = None, untie_mask = None, PROPAGATE_VAL = False,
      update_on = True, optimizer_copy_transformed = True,
      uninit = (\<lambda>i. 0), uninit_grad = (\<lambda>i. 0)\<rparr>"

text \<open>Leaves 0 and 1 tied under label 1 at the value 3, leaf 2 free at 6.\<close>

definition example_tied :: tstate where
  "example_tied =
     \<lparr>params = [[example_cell 3 1 1], [example_cell 3 1 2], [example_cell 6 0 5]], tie_offset = 3,
      tied_param = Some [example_cell 3 1 7],
      label_buf = Some [1, 1, 0, 1], buf_idx = Some [3],
      untie_mask = Some [False, False, True, True],
      PROPAGATE_VAL = False, update_on = True, optimizer_copy_transformed = True,
      uninit = (\<lambda>i. 0), uninit_grad = (\<lambda>i. 0)\<rparr>"

text \<open>Leaf 0 is the last member of the group of label 1; leaf 1 has just been untied.\<close>

definition example_collapsed :: tstate where
  "example_collapsed =
     \<lparr>params = [[example_cell 3 1 1], [example_cell 3 0 2], [example_cell 6 0 5]], tie_offset = 3,
      tied_param = Some [example_cell 3 1 7],
      label_buf = Some [1, 0, 0, 1], buf_idx = Some [3],
      untie_mask = Some [False, True, True, True],
      PROPAGATE_VAL = False, update_on = False, optimizer_copy_transformed = True,
      uninit = (\<lambda>i. 0), uninit_grad = (\<lambda>i. 0)\<rparr>"

text \<open>The labels of the leaves and of the store after an operation that returned.\<close>

definition labels_after :: "tstate result option \<Rightarrow> (nat list list \<times> nat list) option" where
  "labels_after r =
     (case r of
        Some (Inr s) \<Rightarrow> Some (map (map tie) (params s), map tie (tied_cells s))
      | _ \<Rightarrow> None)"

section \<open>Notions used in the properties\<close>

text \<open>
  The label buffer and the buffer index are up to date: they are what
  \<open>_update_label_buf\<close> would compute from the labels the leaves carry now (with
  an empty store neither is read).
\<close>

definition fresh :: "tstate \<Rightarrow> bool" where
  "fresh s \<longleftrightarrow>
     tied_cells s = [] \<or>
     label_buf s = Some (map tie (flat_cells s)) \<and>
     buf_idx s = Some [tie_start s..<tie_start s + length (tied_cells s)]"

text \<open>All positions that carry the label \<open>L\<close> hold one value.\<close>

definition group_uniform :: "tstate \<Rightarrow> nat \<Rightarrow> bool" where
  "group_uniform s L \<longleftrightarrow>
     (\<forall>x\<in>set (flat_cells s). \<forall>y\<in>set (flat_cells s). tie x = L \<and> tie y = L \<longrightarrow> val x = val y)"

text \<open>The tie equality: every position holds the value of the slot whose label it carries.\<close>

definition consistent :: "tstate \<Rightarrow> bool" where
  "consistent s \<longleftrightarrow>
     (\<forall>x\<in>set (flat_cells s). \<forall>t\<in>set (tied_cells s). tie x = tie t \<longrightarrow> val x = val t)"

text \<open>The same on the flattened vectors, and what a round of the change check keeps.\<close>

definition uniform :: "nat list \<Rightarrow> real list \<Rightarrow> nat \<Rightarrow> bool" where
  "uniform lb pa L \<longleftrightarrow>
     (\<forall>j<length lb. \<forall>j'<length lb. lb ! j = L \<and> lb ! j' = L \<longrightarrow> pa ! j = pa ! j')"

definition step_ok :: "nat list \<Rightarrow> real list \<Rightarrow> real list \<Rightarrow> bool" where
  "step_ok lb pa pa' \<longleftrightarrow>
     length pa' = length pa \<and>
     (\<forall>L. uniform lb pa L \<longrightarrow> uniform lb pa' L) \<and>
     (\<forall>j<length pa. uniform lb pa (lb ! j) \<longrightarrow> pa' ! j = pa ! j) \<and>
     (\<forall>j<length pa. \<forall>j'<length pa. lb ! j = lb ! j' \<and> pa ! j = pa ! j' \<longrightarrow> pa' ! j = pa' ! j')"

text \<open>One function applied to every cell of the tree, the store included.\<close>

definition map_cells :: "(cell \<Rightarrow> cell) \<Rightarrow> tstate \<Rightarrow> tstate" where
  "map_cells h s =
     s\<lparr>params := map (map h) (params s), tied_param := map_option (map h) (tied_param s)\<rparr>"

text \<open>The sum \<open>collate_gradient\<close> takes for a label, and the state with new slot gradients.\<close>

definition group_sum :: "nat list \<Rightarrow> real list \<Rightarrow> nat \<Rightarrow> real" where
  "group_sum lb g L = sum_list (select (map (\<lambda>l. l = L) lb) g)"

definition with_slot_grads :: "tstate \<Rightarrow> real list \<Rightarrow> tstate" where
  "with_slot_grads s gs = s\<lparr>tied_param := map_option (\<lambda>t. set_grads t gs) (tied_param s)\<rparr>"

text \<open>
  \<open>s'\<close> is \<open>s\<close> with every value rewritten by \<open>f\<close> (a function of the label and
  the old value); slot gradients and the flags may differ.
\<close>

definition revalued :: "(nat \<Rightarrow> real \<Rightarrow> real) \<Rightarrow> tstate \<Rightarrow> tstate \<Rightarrow> bool" where
  "revalued f s s' \<longleftrightarrow>
     params s' = map (map (\<lambda>x. x\<lparr>val := f (tie x) (val x)\<rparr>)) (params s) \<and>
     map tie (tied_cells s') = map tie (tied_cells s) \<and>
     map val (tied_cells s') = map (\<lambda>x. f (tie x) (val x)) (tied_cells s) \<and>
     (tied_param s' = None \<longleftrightarrow> tied_param s = None) \<and>
     label_buf s' = label_buf s \<and> buf_idx s' = buf_idx s \<and> tie_offset s' = tie_offset s"

text \<open>What a list of label pairs makes of one label.\<close>

definition relabel :: "(nat \<times> nat) list \<Rightarrow> nat \<Rightarrow> nat" where
  "relabel label_pairs l = foldl (\<lambda>l (l1, l2). if l = l1 then l2 else l) l label_pairs"

text \<open>The values of the leaves and of the store after an operation that returned.\<close>

definition vals_after :: "tstate result option \<Rightarrow> (real list list \<times> real list) option" where
  "vals_after r =
     (case r of
        Some (Inr s) \<Rightarrow> Some (map (map val) (params s), map val (tied_cells s))
      | _ \<Rightarrow> None)"

text \<open>Whether an operation returned without raising.\<close>

definition completed :: "tstate result option \<Rightarrow> bool" where
  "completed r \<longleftrightarrow> (case r of Some (Inr s) \<Rightarrow> True | _ \<Rightarrow> False)"

text \<open>
  What \<open>untie\<close> may do to a cell: it keeps the value, and the label stays or
  becomes 0. For a state: every cell of the leaves is treated so, and every slot that is
  left is a slot of before with its label and value.
\<close>

definition loosens :: "cell \<Rightarrow> cell \<Rightarrow> bool" where
  "loosens c c' \<longleftrightarrow> val c' = val c \<and> (tie c' = tie c \<or> tie c' = 0)"

definition loosened :: "tstate \<Rightarrow> tstate \<Rightarrow> bool" where
  "loosened s s' \<longleftrightarrow>
     list_all2 (list_all2 loosens) (params s) (params s') \<and>
     (\<forall>t\<in>set (tied_cells s'). \<exists>u\<in>set (tied_cells s). tie t = tie u \<and> val t = val u)"

text \<open>The label \<open>_expand_tie_param\<close> gives to the first slot it adds.\<close>

definition new_label :: "tstate \<Rightarrow> nat" where
  "new_label s = (case tied_param s of None \<Rightarrow> 1 | Some t \<Rightarrow> Max (set (map tie t)) + 1)"

text \<open>
  The labels are in order: the store, when there is one, is not empty, every slot has a
  positive label, and every label a leaf carries is 0 or the label of a slot.
\<close>

definition well_labelled :: "tstate \<Rightarrow> bool" where
  "well_labelled s \<longleftrightarrow>
     tied_param s \<noteq> Some [] \<and>
     (\<forall>t\<in>set (tied_cells s). 0 < tie t) \<and>
     (\<forall>x\<in>set (concat (params s)). tie x = 0 \<or> tie x \<in> tie ` set (tied_cells s))"

text \<open>The state an operation leaves behind, whether it returned or raised.\<close>

definition outcome_state :: "tstate result \<Rightarrow> tstate" where
  "outcome_state r = (case r of Inl (e, s) \<Rightarrow> s | Inr s \<Rightarrow> s)"

text \<open>
  The change check on the flattened vectors: the values of the group of label \<open>L\<close> that
  differ from the slot's value \<open>t\<close>, and what the check makes of a value \<open>v\<close> of
  that group.
\<close>

definition differs :: "nat list \<Rightarrow> real list \<Rightarrow> nat \<Rightarrow> real \<Rightarrow> real list" where
  "differs lb pa L t = filter (\<lambda>w. w \<noteq> t) (select (map (\<lambda>l. l = L) lb) pa)"

definition fix_val :: "nat list \<Rightarrow> real list \<Rightarrow> nat \<Rightarrow> real \<Rightarrow> real \<Rightarrow> real" where
  "fix_val lb pa L t v = (case differs lb pa L t of [] \<Rightarrow> v | [d] \<Rightarrow> d | _ \<Rightarrow> t)"

text \<open>
  The change check as the specification words it. For the group of a slot \<open>t\<close>: the
  member positions that do not hold the slot's value; the value to broadcast, if any (none
  when no member differs, the one member's value when exactly one differs, the slot's value
  when two or more differ); what a position holds afterwards; and the whole check, which
  also tells whether any group required correction.
\<close>

definition differing :: "tstate \<Rightarrow> cell \<Rightarrow> cell list" where
  "differing s t = filter (\<lambda>x. tie x = tie t \<and> val x \<noteq> val t) (flat_cells s)"

definition group_correction :: "tstate \<Rightarrow> cell \<Rightarrow> real option" where
  "group_correction s t =
     (case differing s t of [] \<Rightarrow> None | [d] \<Rightarrow> Some (val d) | _ \<Rightarrow> Some (val t))"

definition corrected_val :: "tstate \<Rightarrow> cell \<Rightarrow> real" where
  "corrected_val s x =
     (case find (\<lambda>t. tie t = tie x) (tied_cells s) of
        None \<Rightarrow> val x
      | Some t \<Rightarrow> (case group_correction s t of None \<Rightarrow> val x | Some v \<Rightarrow> v))"

definition check_change_spec :: "tstate \<Rightarrow> bool \<times> tstate" where
  "check_change_spec s =
     (\<exists>t\<in>set (tied_cells s). group_correction s t \<noteq> None,
      map_cells (\<lambda>x. x\<lparr>val := corrected_val s x\<rparr>) s)"

text \<open>Leaves 0 and 1 tied under label 1; leaf 1 has been set to 5 and not yet checked.\<close>

definition example_edited :: tstate where
  "example_edited =
     \<lparr>params = [[example_cell 3 1 1], [example_cell 5 1 2], [example_cell 6 0 5]], tie_offset = 3,
      tied_param = Some [example_cell 3 1 7],
      label_buf = Some [1, 1, 0, 1], buf_idx = Some [3],
      untie_mask = Some [False, False, True, True],
      PROPAGATE_VAL = False, update_on = True, optimizer_copy_transformed = True,
      uninit = (\<lambda>i. 0), uninit_grad = (\<lambda>i. 0)\<rparr>"

section \<open>Properties\<close>

subsection \<open>Basic facts\<close>

lemma length_concat_labels:
  "length (concat (map (\<lambda>k. map tie (leaf s k)) ks)) = length (concat (map (leaf s) ks))"
  by (induction ks) auto

lemma leaf_update_on [simp]: "leaf (s\<lparr>update_on := b\<rparr>) = leaf s"
  by (simp add: leaf_def fun_eq_iff)

lemma length_split_like [simp]: "length (split_like ps ws) = length ps"
  by (induction ps arbitrary: ws) auto

lemma concat_map2_split_like:
  "length ws = length (concat ps) \<Longrightarrow>
   concat (map2 (\<lambda>p. map2 f p) ps (split_like ps ws)) = map2 f (concat ps) ws"
proof (induction ps arbitrary: ws)
  case Nil
  then show ?case by simp
next
  case (Cons p ps)
  have "map2 f (p @ concat ps) ws =
        map2 f p (take (length p) ws) @ map2 f (concat ps) (drop (length p) ws)"
    using Cons.prems
    by (metis append_take_drop_id length_take min.absorb2 le_add1 length_append
        map_append zip_append concat.simps(2))
  then show ?case using Cons by simp
qed

lemma map2_split_like_id:
  "(\<And>c. f c (g c) = c) \<Longrightarrow>
   map2 (\<lambda>p. map2 f p) ps (split_like ps (map g (concat ps))) = ps"
proof (induction ps)
  case Nil
  then show ?case by simp
next
  case (Cons p ps)
  have "map2 f p (map g p) = p"
    using Cons.prems by (induction p) auto
  then show ?case using Cons by simp
qed

lemma length_map2_split_like:
  "length ws = length (concat ps) \<Longrightarrow>
   map length (map2 (\<lambda>p. map2 f p) ps (split_like ps ws)) = map length ps"
  by (induction ps arbitrary: ws) auto

lemma map2_three:
  "map2 f (A @ T @ B) xs =
   map2 f A (take (length A) xs) @ map2 f T (take (length T) (drop (length A) xs)) @
   map2 f B (drop (length A + length T) xs)"
  by (simp add: zip_append1 add.commute)

lemma flat_update_generic:
  assumes len: "length xs = length (concat ps) + length T"
    and a: "a \<le> length (concat ps)"
  shows "take a (concat (map2 (\<lambda>p. map2 f p) ps
                    (split_like ps (take a xs @ drop (a + length T) xs)))) @
         map2 f T (take (length T) (drop a xs)) @
         drop a (concat (map2 (\<lambda>p. map2 f p) ps
                    (split_like ps (take a xs @ drop (a + length T) xs)))) =
         map2 f (take a (concat ps) @ T @ drop a (concat ps)) xs"
proof -
  let ?W = "take a xs @ drop (a + length T) xs"
  have lw: "length ?W = length (concat ps)" using len a by simp
  have c: "concat (map2 (\<lambda>p. map2 f p) ps (split_like ps ?W)) = map2 f (concat ps) ?W"
    by (rule concat_map2_split_like [OF lw])
  have la: "length (take a xs) = a" using len a by simp
  have t: "take a (map2 f (concat ps) ?W) = map2 f (take a (concat ps)) (take a xs)"
    using la by (simp add: take_map take_zip)
  have d: "drop a (map2 f (concat ps) ?W) = map2 f (drop a (concat ps)) (drop (a + length T) xs)"
    using la by (simp add: drop_map drop_zip)
  have la': "length (take a (concat ps)) = a" using a by simp
  show ?thesis
    unfolding c t d using la' by (simp add: map2_three)
qed

lemma tie_start_le: "tie_start s \<le> length (concat (params s))"
  by (simp add: tie_start_def)

lemma length_flat_cells: "length (flat_cells s) = length (concat (params s)) + length (tied_cells s)"
  using tie_start_le [of s] by (simp add: flat_cells_def)

lemma length_tied_set_vals:
  "length (tied_cells (s\<lparr>tied_param := map_option (\<lambda>t. map2 f t (g t)) (tied_param s)\<rparr>)) = 
   min (length (tied_cells s)) (length (g (tied_cells s)))"
  by (cases "tied_param s") (auto simp: tied_cells_def)

lemma set_param_array_flat:
  assumes "length vs = length (flat_cells s)"
  shows "flat_cells (set_param_array s vs) = set_vals (flat_cells s) vs"
    and "map length (params (set_param_array s vs)) = map length (params s)"
    and "tie_start (set_param_array s vs) = tie_start s"
    and "length (tied_cells (set_param_array s vs)) = length (tied_cells s)"
proof -
  let ?a = "tie_start s" and ?n = "length (tied_cells s)" 
  let ?W = "take ?a vs @ drop (?a + ?n) vs"
  let ?f = "\<lambda>c v. c\<lparr>val := v\<rparr>"
  have len: "length vs = length (concat (params s)) + ?n"
    using assms by (simp add: length_flat_cells)
  have a: "?a \<le> length (concat (params s))" by (rule tie_start_le)
  have lw: "length ?W = length (concat (params s))" using len a by simp
  have sv: "set_vals = (\<lambda>p. map2 ?f p)" by (simp add: set_vals_def fun_eq_iff)
  have P: "params (set_param_array s vs) = map2 (\<lambda>p. map2 ?f p) (params s) (split_like (params s) ?W)"
    by (simp add: set_param_array_def Let_def sv)
  show L: "map length (params (set_param_array s vs)) = map length (params s)"
    unfolding P by (rule length_map2_split_like [OF lw])
  have "length (concat (params (set_param_array s vs))) = length (concat (params s))"
    using L by (simp add: length_concat)
  then show S: "tie_start (set_param_array s vs) = tie_start s"
    by (simp add: tie_start_def set_param_array_def Let_def)
  have T: "tied_cells (set_param_array s vs) = map2 ?f (tied_cells s) (take ?n (drop ?a vs))"
    by (cases "tied_param s") (auto simp: tied_cells_def set_param_array_def Let_def sv)
  show "length (tied_cells (set_param_array s vs)) = length (tied_cells s)"
    unfolding T using len a by simp
  show "flat_cells (set_param_array s vs) = set_vals (flat_cells s) vs"
    unfolding flat_cells_def [of "set_param_array s vs"] S T P
    using flat_update_generic [OF len a, of ?f]
    by (simp add: flat_cells_def sv)
qed

lemma set_param_array_id: "set_param_array s (param_array s) = s"
proof -
  let ?a = "tie_start s" and ?n = "length (tied_cells s)" and ?F = "concat (params s)"
  let ?f = "\<lambda>c v. c\<lparr>val := v\<rparr>"
  have a: "?a \<le> length ?F" by (rule tie_start_le)
  have sv: "set_vals = (\<lambda>p. map2 ?f p)" by (simp add: set_vals_def fun_eq_iff)
  have 1: "take ?a (param_array s) @ drop (?a + ?n) (param_array s) = map val ?F"
    using a by (simp add: param_array_def flat_cells_def take_map drop_map flip: map_append)
  have 2: "take ?n (drop ?a (param_array s)) = map val (tied_cells s)"
    using a by (simp add: param_array_def flat_cells_def)
  have 3: "map2 (\<lambda>p. map2 ?f p) (params s) (split_like (params s) (map val ?F)) = params s"
    by (rule map2_split_like_id) simp
  have 4: "map_option (\<lambda>t. set_vals t (map val (tied_cells s))) (tied_param s) = tied_param s"
    by (cases "tied_param s") (auto simp: tied_cells_def set_vals_def map_idI zip_map2 map_zip_map2 intro!: nth_equalityI)
  show ?thesis
    unfolding set_param_array_def Let_def 1 2 sv [symmetric] 
    using 3 4 by (simp add: sv)
qed

lemma length_assign_mask [simp]:
  "length (assign_mask m xs v) = min (length m) (length xs)"
  by (simp add: assign_mask_def)

lemma nth_assign_mask:
  "j < length m \<Longrightarrow> j < length xs \<Longrightarrow> assign_mask m xs v ! j = (if m ! j then v else xs ! j)"
  by (simp add: assign_mask_def)

lemma select_Cons [simp]:
  "select (b # m) (x # xs) = (if b then x # select m xs else select m xs)"
  by (simp add: select_def)

lemma select_Nil [simp]: "select [] xs = []" "select m [] = []"
  by (simp_all add: select_def)

lemma no_differing_iff:
  assumes "length m = length xs"
  shows "length (filter id (map (\<lambda>x. x \<noteq> t) (select m xs))) = 0 \<longleftrightarrow>
         (\<forall>j<length xs. m ! j \<longrightarrow> xs ! j = t)"
  using assms
proof (induction m xs rule: list_induct2)
  case Nil
  then show ?case by simp
next
  case (Cons b m x xs)
  then show ?case by (simp add: All_less_Suc2)
qed

lemma uniformI:
  "(\<And>j. j < length lb \<Longrightarrow> lb ! j = L \<Longrightarrow> pa ! j = v) \<Longrightarrow> uniform lb pa L"
  unfolding uniform_def by simp

lemma uniformD:
  "uniform lb pa L \<Longrightarrow> j < length lb \<Longrightarrow> j' < length lb \<Longrightarrow> lb ! j = L \<Longrightarrow> lb ! j' = L \<Longrightarrow>
   pa ! j = pa ! j'"
  unfolding uniform_def by blast

lemma check_group_fresh:
  assumes len: "length lb = length pa"
    and i: "i < length bi" "bi ! i = a + i" "a + i < length lb"
  shows "\<exists>c v pa'. check_group lb bi a i pa = Inr (c, pa') \<and> length pa' = length pa \<and>
           (\<forall>j<length pa. pa' ! j = (if c \<and> lb ! j = lb ! (a + i) then v else pa ! j)) \<and>
           (c \<longleftrightarrow> \<not> uniform lb pa (lb ! (a + i)))"
proof -
  define L where "L = lb ! (a + i)"
  define b0 where "b0 = map (\<lambda>l. l = L) lb"
  define cnt where "cnt = length (filter id (map (\<lambda>x. x \<noteq> pa ! (a + i)) (select b0 pa)))"
  have lb0: "length b0 = length pa" using len by (simp add: b0_def)
  have b0n: "\<And>j. j < length pa \<Longrightarrow> b0 ! j = (lb ! j = L)"
    using len by (simp add: b0_def)
  have zero: "cnt = 0 \<longleftrightarrow> (\<forall>j<length pa. lb ! j = L \<longrightarrow> pa ! j = pa ! (a + i))"
    unfolding cnt_def no_differing_iff [OF lb0] using b0n by simp
  have La: "lb ! (a + i) = L" by (simp add: L_def)
  have uni: "cnt = 0" if u: "uniform lb pa L"
    unfolding zero
  proof (intro allI impI)
    fix j assume j: "j < length pa" "lb ! j = L"
    have "j < length lb" using j(1) len by simp
    then show "pa ! j = pa ! (a + i)"
      by (rule uniformD [OF u _ i(3) j(2) La])
  qed
  have asg: "length (assign_mask b0 pa v) = length pa \<and>
             (\<forall>j<length pa. assign_mask b0 pa v ! j = (if True \<and> lb ! j = L then v else pa ! j))" for v
    using lb0 b0n by (simp add: nth_assign_mask)
  have cg: "check_group lb bi a i pa =
        (if cnt = 0 then Inr (False, pa)
         else if cnt = 1 then Inr (True, assign_mask b0 pa (hd (select (map (\<lambda>x. x \<noteq> pa ! (a + i)) (select b0 pa)) (select b0 pa))))
         else Inr (True, assign_mask b0 pa (pa ! (a + i))))"
    unfolding check_group_def Let_def cnt_def b0_def L_def using i len by simp
  show ?thesis
  proof (cases "cnt = 0")
    case True
    have "uniform lb pa L"
    proof (rule uniformI [where v = "pa ! (a + i)"])
      fix j assume "j < length lb" "lb ! j = L"
      then show "pa ! j = pa ! (a + i)" using True zero len by simp
    qed
    then show ?thesis using True cg unfolding La
      by (intro exI [of _ False] exI [of _ pa]) simp
  next
    case False
    then have nu: "\<not> uniform lb pa L" using uni by blast
    obtain v where "check_group lb bi a i pa = Inr (True, assign_mask b0 pa v)"
      using False cg by (cases "cnt = 1") simp_all
    then show ?thesis using asg [of v] nu unfolding La
      by (intro exI [of _ True] exI [of _ v] exI [of _ "assign_mask b0 pa v"]) simp
  qed
qed

lemma step_ok_refl: "step_ok lb pa pa"
  by (simp add: step_ok_def)

lemma step_ok_trans:
  assumes "step_ok lb pa pa1" "step_ok lb pa1 pa2"
  shows "step_ok lb pa pa2"
proof -
  from assms have l: "length pa1 = length pa" "length pa2 = length pa1"
    and k1: "\<And>L. uniform lb pa L \<Longrightarrow> uniform lb pa1 L"
    and k2: "\<And>L. uniform lb pa1 L \<Longrightarrow> uniform lb pa2 L"
    and v1: "\<And>j. j < length pa \<Longrightarrow> uniform lb pa (lb ! j) \<Longrightarrow> pa1 ! j = pa ! j"
    and v2: "\<And>j. j < length pa1 \<Longrightarrow> uniform lb pa1 (lb ! j) \<Longrightarrow> pa2 ! j = pa1 ! j"
    and e1: "\<And>j j'. j < length pa \<Longrightarrow> j' < length pa \<Longrightarrow> lb ! j = lb ! j' \<Longrightarrow> pa ! j = pa ! j' \<Longrightarrow>
               pa1 ! j = pa1 ! j'"
    and e2: "\<And>j j'. j < length pa1 \<Longrightarrow> j' < length pa1 \<Longrightarrow> lb ! j = lb ! j' \<Longrightarrow> pa1 ! j = pa1 ! j' \<Longrightarrow>
               pa2 ! j = pa2 ! j'"
    unfolding step_ok_def by blast+
  show ?thesis
    unfolding step_ok_def
  proof (intro conjI allI impI)
    show "length pa2 = length pa" using l by simp
    show "uniform lb pa2 L" if "uniform lb pa L" for L using k1 k2 that by blast
    show "pa2 ! j = pa ! j" if "j < length pa" "uniform lb pa (lb ! j)" for j
      using v1 [OF that] v2 [of j] k1 [OF that(2)] that(1) l by simp
    show "pa2 ! j = pa2 ! j'"
      if "j < length pa" "j' < length pa" "lb ! j = lb ! j' \<and> pa ! j = pa ! j'" for j j'
    proof -
      have "pa1 ! j = pa1 ! j'" using e1 that by blast
      then show ?thesis using e2 [of j j'] that l by simp
    qed
  qed
qed

lemma step_ok_group:
  assumes len: "length lb = length pa" and l': "length pa' = length pa"
    and n: "\<forall>j<length pa. pa' ! j = (if c \<and> lb ! j = L then v else pa ! j)"
    and c: "c \<longleftrightarrow> \<not> uniform lb pa L"
  shows "step_ok lb pa pa'" and "uniform lb pa' L"
proof -
  have same: "pa' ! j = pa ! j" if "j < length pa" "uniform lb pa (lb ! j)" for j
  proof (cases "c \<and> lb ! j = L")
    case True
    then show ?thesis using that(2) c by simp
  next
    case False
    have "pa' ! j = (if c \<and> lb ! j = L then v else pa ! j)" using n that(1) by blast
    then show ?thesis using False by auto
  qed
  have u: "uniform lb pa' L'" if u0: "uniform lb pa L'" for L'
    unfolding uniform_def
  proof (intro allI impI)
    fix j j' assume a: "j < length lb" "j' < length lb" "lb ! j = L' \<and> lb ! j' = L'"
    have "pa' ! j = pa ! j" using same [of j] a u0 len by simp
    moreover have "pa' ! j' = pa ! j'" using same [of j'] a u0 len by simp
    moreover have "pa ! j = pa ! j'" using uniformD [OF u0 a(1) a(2)] a(3) by simp
    ultimately show "pa' ! j = pa' ! j'" by simp
  qed
  show "uniform lb pa' L"
  proof (cases c)
    case True
    show ?thesis
    proof (rule uniformI [where v = v])
      fix j assume "j < length lb" "lb ! j = L"
      then show "pa' ! j = v" using True n len by simp
    qed
  next
    case False
    then show ?thesis using u c by blast
  qed
  show "step_ok lb pa pa'"
    unfolding step_ok_def
  proof (intro conjI allI impI)
    show "length pa' = length pa" by (rule l')
    show "uniform lb pa' L'" if "uniform lb pa L'" for L' using u that by blast
    show "pa' ! j = pa ! j" if "j < length pa" "uniform lb pa (lb ! j)" for j
      using same that by blast
    show "pa' ! j = pa' ! j'"
      if "j < length pa" "j' < length pa" "lb ! j = lb ! j' \<and> pa ! j = pa ! j'" for j j'
    proof -
      have "pa' ! j = (if c \<and> lb ! j = L then v else pa ! j)" using n that(1) by blast
      moreover have "pa' ! j' = (if c \<and> lb ! j' = L then v else pa ! j')" using n that(2) by blast
      ultimately show ?thesis using that(3) by presburger
    qed
  qed
qed

lemma check_loop_fresh:
  assumes "length lb = length pa"
    and "\<forall>i\<in>set is. i < length bi \<and> bi ! i = a + i \<and> a + i < length lb"
  shows "\<exists>c pa'. check_loop lb bi a is ch pa = Inr (c, pa') \<and> step_ok lb pa pa' \<and>
           (\<forall>i\<in>set is. uniform lb pa' (lb ! (a + i))) \<and>
           (\<forall>j<length pa. (\<forall>i\<in>set is. lb ! j \<noteq> lb ! (a + i)) \<longrightarrow> pa' ! j = pa ! j) \<and>
           (c \<longleftrightarrow> ch \<or> (\<exists>i\<in>set is. \<not> uniform lb pa (lb ! (a + i))))"
  using assms
proof (induction "is" arbitrary: ch pa)
  case Nil
  then show ?case by (simp add: step_ok_refl)
next
  case (Cons i "is")
  from Cons.prems have i: "i < length bi" "bi ! i = a + i" "a + i < length lb" by auto
  from check_group_fresh [OF Cons.prems(1) i]
  obtain c1 v pa1 where g: "check_group lb bi a i pa = Inr (c1, pa1)"
    and l1: "length pa1 = length pa"
    and n1: "\<forall>j<length pa. pa1 ! j = (if c1 \<and> lb ! j = lb ! (a + i) then v else pa ! j)"
    and c1: "c1 \<longleftrightarrow> \<not> uniform lb pa (lb ! (a + i))"
    by blast
  note ok1 = step_ok_group [OF Cons.prems(1) l1 n1 c1]
  have len1: "length lb = length pa1" using l1 Cons.prems(1) by simp
  have rest: "\<forall>i\<in>set is. i < length bi \<and> bi ! i = a + i \<and> a + i < length lb"
    using Cons.prems(2) by simp
  from Cons.IH [OF len1 rest, of "ch \<or> c1"]
  obtain c2 pa2 where r: "check_loop lb bi a is (ch \<or> c1) pa1 = Inr (c2, pa2)"
    and ok2: "step_ok lb pa1 pa2"
    and u2: "\<forall>i\<in>set is. uniform lb pa2 (lb ! (a + i))"
    and o2: "\<forall>j<length pa1. (\<forall>i\<in>set is. lb ! j \<noteq> lb ! (a + i)) \<longrightarrow> pa2 ! j = pa1 ! j"
    and c2: "c2 \<longleftrightarrow> (ch \<or> c1) \<or> (\<exists>i\<in>set is. \<not> uniform lb pa1 (lb ! (a + i)))"
    by blast
  have e: "check_loop lb bi a (i # is) ch pa = Inr (c2, pa2)"
    using g r by simp
  have ok: "step_ok lb pa pa2" by (rule step_ok_trans [OF ok1(1) ok2])
  have ui: "uniform lb pa2 (lb ! (a + i))"
    using ok1(2) ok2 unfolding step_ok_def by blast
  have o: "\<forall>j<length pa. (\<forall>i'\<in>set (i # is). lb ! j \<noteq> lb ! (a + i')) \<longrightarrow> pa2 ! j = pa ! j"
    using n1 o2 l1 by simp
  have keep: "uniform lb pa L \<Longrightarrow> uniform lb pa1 L" for L
    using ok1(1) unfolding step_ok_def by blast
  have same1: "pa1 = pa" if "\<not> c1"
    using that n1 l1 by (simp add: list_eq_iff_nth_eq)
  have cc: "c2 \<longleftrightarrow> ch \<or> (\<exists>i'\<in>set (i # is). \<not> uniform lb pa (lb ! (a + i')))"
  proof (cases c1)
    case True
    then show ?thesis using c2 c1 by simp
  next
    case False
    then show ?thesis using c2 c1 same1 by simp
  qed
  show ?case using e ok ui u2 o cc by simp
qed

lemma map2_split_like_map:
  "map2 (\<lambda>p. map2 f p) ps (split_like ps (map g (concat ps))) = map (map (\<lambda>c. f c (g c))) ps"
proof (induction ps)
  case Nil
  then show ?case by simp
next
  case (Cons p ps)
  have "map2 f p (map g p) = map (\<lambda>c. f c (g c)) p"
    by (induction p) auto
  then show ?case using Cons by simp
qed

lemma tied_cells_map_cells [simp]: "tied_cells (map_cells h s) = map h (tied_cells s)"
  by (cases "tied_param s") (simp_all add: tied_cells_def map_cells_def)

lemma params_map_cells [simp]: "params (map_cells h s) = map (map h) (params s)"
  by (simp add: map_cells_def)

lemma tie_start_map_cells [simp]: "tie_start (map_cells h s) = tie_start s"
  by (simp add: tie_start_def map_cells_def length_concat comp_def)

lemma flat_cells_map_cells [simp]: "flat_cells (map_cells h s) = map h (flat_cells s)"
  by (simp add: flat_cells_def take_map drop_map flip: map_concat)

lemma leaf_map_cells [simp]: "leaf (map_cells h s) k = map h (leaf s k)"
  by (simp add: leaf_def)

lemma map_cells_fields [simp]:
  "label_buf (map_cells h s) = label_buf s"
  "buf_idx (map_cells h s) = buf_idx s"
  "PROPAGATE_VAL (map_cells h s) = PROPAGATE_VAL s"
  "tie_offset (map_cells h s) = tie_offset s"
  "tied_param (map_cells h s) = map_option (map h) (tied_param s)"
  by (simp_all add: map_cells_def)

lemma map_cells_id: "(\<And>c. h c = c) \<Longrightarrow> map_cells h s = s"
  by (cases "tied_param s") (simp_all add: map_cells_def map_idI)

lemma set_param_array_map:
  "set_param_array s (map g (flat_cells s)) = map_cells (\<lambda>c. c\<lparr>val := g c\<rparr>) s"
proof -
  let ?a = "tie_start s" and ?n = "length (tied_cells s)" and ?F = "concat (params s)"
  let ?f = "\<lambda>c v. c\<lparr>val := v\<rparr>"
  have a: "?a \<le> length ?F" by (rule tie_start_le)
  have sv: "set_vals = (\<lambda>p. map2 ?f p)" by (simp add: set_vals_def fun_eq_iff)
  have 1: "take ?a (map g (flat_cells s)) @ drop (?a + ?n) (map g (flat_cells s)) = map g ?F"
    using a by (simp add: flat_cells_def take_map drop_map flip: map_append)
  have 2: "take ?n (drop ?a (map g (flat_cells s))) = map g (tied_cells s)"
    using a by (simp add: flat_cells_def)
  have 3: "map2 (\<lambda>p. map2 ?f p) (params s) (split_like (params s) (map g ?F)) =
           map (map (\<lambda>c. c\<lparr>val := g c\<rparr>)) (params s)"
    by (rule map2_split_like_map)
  have 4: "map2 ?f t (map g t) = map (\<lambda>c. c\<lparr>val := g c\<rparr>) t" for t
    by (induction t) auto
  have 5: "map_option (\<lambda>t. set_vals t (map g (tied_cells s))) (tied_param s) =
           map_option (map (\<lambda>c. c\<lparr>val := g c\<rparr>)) (tied_param s)"
    by (cases "tied_param s") (simp_all add: tied_cells_def sv 4)
  show ?thesis
    unfolding set_param_array_def Let_def 1 2 5 map_cells_def
    using 3 by (simp add: sv)
qed

lemma pointwise_function:
  assumes "length ys = length xs"
    and "\<forall>j<length xs. \<forall>j'<length xs. key (xs ! j) = key (xs ! j') \<longrightarrow> ys ! j = ys ! j'"
  shows "\<exists>f. ys = map (\<lambda>x. f (key x)) xs"
proof -
  define f where "f k = ys ! (SOME j. j < length xs \<and> key (xs ! j) = k)" for k
  have "ys ! j = f (key (xs ! j))" if j: "j < length xs" for j
  proof -
    let ?P = "\<lambda>j'. j' < length xs \<and> key (xs ! j') = key (xs ! j)"
    have "?P (SOME j'. ?P j')" by (rule someI [of ?P j]) (use j in simp)
    then have "ys ! (SOME j'. ?P j') = ys ! j" using assms(2) j by blast
    then show ?thesis unfolding f_def by simp
  qed
  then have "ys = map (\<lambda>x. f (key x)) xs"
    using assms(1) by (simp add: list_eq_iff_nth_eq)
  then show ?thesis by blast
qed

lemma group_uniform_iff:
  "group_uniform s L \<longleftrightarrow> uniform (map tie (flat_cells s)) (map val (flat_cells s)) L"
proof
  assume g: "group_uniform s L"
  show "uniform (map tie (flat_cells s)) (map val (flat_cells s)) L"
    unfolding uniform_def
  proof (intro allI impI)
    fix j j'
    assume a: "j < length (map tie (flat_cells s))" "j' < length (map tie (flat_cells s))"
      "map tie (flat_cells s) ! j = L \<and> map tie (flat_cells s) ! j' = L"
    then have "flat_cells s ! j \<in> set (flat_cells s)" "flat_cells s ! j' \<in> set (flat_cells s)"
      "tie (flat_cells s ! j) = L" "tie (flat_cells s ! j') = L"
      by simp_all
    then have "val (flat_cells s ! j) = val (flat_cells s ! j')"
      using g unfolding group_uniform_def by blast
    then show "map val (flat_cells s) ! j = map val (flat_cells s) ! j'"
      using a by simp
  qed
next
  assume u: "uniform (map tie (flat_cells s)) (map val (flat_cells s)) L"
  show "group_uniform s L"
    unfolding group_uniform_def
  proof (intro ballI impI)
    fix x y assume a: "x \<in> set (flat_cells s)" "y \<in> set (flat_cells s)" "tie x = L \<and> tie y = L"
    then obtain j j' where j: "j < length (flat_cells s)" "flat_cells s ! j = x"
      "j' < length (flat_cells s)" "flat_cells s ! j' = y"
      unfolding in_set_conv_nth by blast
    have "map val (flat_cells s) ! j = map val (flat_cells s) ! j'"
      by (rule uniformD [OF u]) (use j a in simp_all)
    then show "val x = val y" using j by simp
  qed
qed

lemma tied_nth_flat:
  "i < length (tied_cells s) \<Longrightarrow> flat_cells s ! (tie_start s + i) = tied_cells s ! i"
  using tie_start_le [of s] by (simp add: flat_cells_def nth_append)

lemma consistent_iff:
  "consistent s \<longleftrightarrow> (\<forall>t\<in>set (tied_cells s). group_uniform s (tie t))"
proof -
  have sub: "set (tied_cells s) \<subseteq> set (flat_cells s)"
    by (auto simp: flat_cells_def)
  show ?thesis
    unfolding consistent_def group_uniform_def
  proof
    assume c: "\<forall>x\<in>set (flat_cells s). \<forall>t\<in>set (tied_cells s). tie x = tie t \<longrightarrow> val x = val t"
    show "\<forall>t\<in>set (tied_cells s). \<forall>x\<in>set (flat_cells s). \<forall>y\<in>set (flat_cells s).
            tie x = tie t \<and> tie y = tie t \<longrightarrow> val x = val y"
    proof (intro ballI impI)
      fix t x y assume "t \<in> set (tied_cells s)" "x \<in> set (flat_cells s)" "y \<in> set (flat_cells s)"
        "tie x = tie t \<and> tie y = tie t"
      then have "val x = val t" "val y = val t" using c by blast+
      then show "val x = val y" by simp
    qed
  next
    assume g: "\<forall>t\<in>set (tied_cells s). \<forall>x\<in>set (flat_cells s). \<forall>y\<in>set (flat_cells s).
            tie x = tie t \<and> tie y = tie t \<longrightarrow> val x = val y"
    show "\<forall>x\<in>set (flat_cells s). \<forall>t\<in>set (tied_cells s). tie x = tie t \<longrightarrow> val x = val t"
      using g sub by blast
  qed
qed

lemma check_change_no_store:
  "tied_cells s = [] \<Longrightarrow> check_change s = Inr (False, s)"
  by (cases "tied_param s") (simp_all add: check_change_def tied_cells_def)

lemma fresh_loop_indices:
  shows "length (map tie (flat_cells s)) = length (param_array s)"
    and "\<forall>i\<in>set [0..<length (tied_cells s)].
           i < length [tie_start s..<tie_start s + length (tied_cells s)] \<and>
           [tie_start s..<tie_start s + length (tied_cells s)] ! i = tie_start s + i \<and>
           tie_start s + i < length (map tie (flat_cells s))"
  using tie_start_le [of s] by (simp_all add: param_array_def length_flat_cells)

lemma check_change_fresh:
  assumes f: "fresh s"
  shows "\<exists>c f. check_change s = Inr (c, map_cells (\<lambda>x. x\<lparr>val := f (tie x) (val x)\<rparr>) s) \<and>
           (\<forall>x\<in>set (flat_cells s). \<forall>t\<in>set (tied_cells s).
              tie x = tie t \<longrightarrow> f (tie x) (val x) = f (tie t) (val t)) \<and>
           (\<forall>x\<in>set (flat_cells s). group_uniform s (tie x) \<longrightarrow> f (tie x) (val x) = val x) \<and>
           (\<forall>x\<in>set (flat_cells s). tie x \<notin> tie ` set (tied_cells s) \<longrightarrow> f (tie x) (val x) = val x) \<and>
           (c \<longleftrightarrow> \<not> consistent s)"
proof (cases "tied_cells s = []")
  case True
  have "map_cells (\<lambda>x. x\<lparr>val := (\<lambda>L v. v) (tie x) (val x)\<rparr>) s = s"
    by (rule map_cells_id) simp
  moreover have "consistent s" using True by (simp add: consistent_def)
  ultimately show ?thesis
    using check_change_no_store [OF True] True
    by (intro exI [of _ False] exI [of _ "\<lambda>L v. v"]) simp
next
  case False
  define cs where "cs = flat_cells s"
  define lb where "lb = map tie cs"
  define pa where "pa = param_array s"
  define a where "a = tie_start s"
  define n where "n = length (tied_cells s)"
  define bi where "bi = [a..<a + n]"
  obtain t where t: "tied_param s = Some t" "t \<noteq> []" "tied_cells s = t"
    using False by (cases "tied_param s") (auto simp: tied_cells_def)
  have lbs: "label_buf s = Some lb" and bis: "buf_idx s = Some bi"
    using f False by (simp_all add: fresh_def lb_def cs_def bi_def a_def n_def)
  have len: "length lb = length pa"
    by (simp add: lb_def pa_def cs_def param_array_def)
  have idx: "\<forall>i\<in>set [0..<n]. i < length bi \<and> bi ! i = a + i \<and> a + i < length lb"
    using fresh_loop_indices(2) [of s] by (simp add: bi_def lb_def cs_def a_def n_def)
  from check_loop_fresh [OF len idx, of False]
  obtain c pa' where r: "check_loop lb bi a [0..<n] False pa = Inr (c, pa')"
    and ok: "step_ok lb pa pa'"
    and un: "\<forall>i\<in>set [0..<n]. uniform lb pa' (lb ! (a + i))"
    and ot: "\<forall>j<length pa. (\<forall>i\<in>set [0..<n]. lb ! j \<noteq> lb ! (a + i)) \<longrightarrow> pa' ! j = pa ! j"
    and cc: "c \<longleftrightarrow> False \<or> (\<exists>i\<in>set [0..<n]. \<not> uniform lb pa (lb ! (a + i)))"
    by blast
  have cce: "check_change s = Inr (c, set_param_array s pa')"
    using t lbs bis r by (simp add: check_change_def a_def n_def pa_def)
  have lcs: "length pa = length cs" "length pa' = length cs"
  proof -
    show "length pa = length cs" by (simp add: pa_def cs_def param_array_def)
    moreover have "length pa' = length pa" using ok unfolding step_ok_def by blast
    ultimately show "length pa' = length cs" by simp
  qed
  have lbn: "\<And>j. j < length cs \<Longrightarrow> lb ! j = tie (cs ! j)"
    and pan: "\<And>j. j < length cs \<Longrightarrow> pa ! j = val (cs ! j)"
    by (simp_all add: lb_def pa_def param_array_def cs_def)
  have key: "\<forall>j<length cs. \<forall>j'<length cs.
               (tie (cs ! j), val (cs ! j)) = (tie (cs ! j'), val (cs ! j')) \<longrightarrow> pa' ! j = pa' ! j'"
  proof (intro allI impI)
    fix j j' assume j: "j < length cs" "j' < length cs"
      "(tie (cs ! j), val (cs ! j)) = (tie (cs ! j'), val (cs ! j'))"
    have e: "\<forall>j<length pa. \<forall>j'<length pa. lb ! j = lb ! j' \<and> pa ! j = pa ! j' \<longrightarrow> pa' ! j = pa' ! j'"
      using ok unfolding step_ok_def by blast
    have t: "tie (cs ! j) = tie (cs ! j')" and v: "val (cs ! j) = val (cs ! j')"
      using j(3) by blast+
    have "lb ! j = lb ! j'"
      unfolding lbn [OF j(1)] lbn [OF j(2)] by (rule t)
    moreover have "pa ! j = pa ! j'"
      unfolding pan [OF j(1)] pan [OF j(2)] by (rule v)
    moreover have "j < length pa" "j' < length pa"
      unfolding lcs(1) by (rule j(1), rule j(2))
    ultimately show "pa' ! j = pa' ! j'" using e by blast
  qed
  from pointwise_function [OF lcs(2) key]
  obtain g where g: "pa' = map (\<lambda>x. g (tie x, val x)) cs" by blast
  define f where "f L v = g (L, v)" for L v
  have pa'n: "\<And>j. j < length cs \<Longrightarrow> pa' ! j = f (tie (cs ! j)) (val (cs ! j))"
    using g by (simp add: f_def)
  have res: "check_change s = Inr (c, map_cells (\<lambda>x. x\<lparr>val := f (tie x) (val x)\<rparr>) s)"
    unfolding cce g cs_def f_def by (simp add: set_param_array_map)
  have slot: "\<exists>i<n. a + i < length cs \<and> cs ! (a + i) = u" if "u \<in> set (tied_cells s)" for u
  proof -
    from that obtain i where i: "i < n" "tied_cells s ! i = u"
      unfolding in_set_conv_nth n_def by blast
    have "cs ! (a + i) = u" using tied_nth_flat [of i s] i by (simp add: cs_def a_def n_def)
    moreover have "a + i < length cs"
      using i tie_start_le [of s] by (simp add: cs_def a_def n_def length_flat_cells)
    ultimately show ?thesis using i by blast
  qed
  have slot': "cs ! (a + i) \<in> set (tied_cells s)" if "i < n" for i
    using tied_nth_flat [of i s] that by (simp add: cs_def a_def n_def)
  have 1: "f (tie x) (val x) = f (tie u) (val u)"
    if "x \<in> set cs" "u \<in> set (tied_cells s)" "tie x = tie u" for x u
  proof -
    from that(1) obtain j where j: "j < length cs" "cs ! j = x"
      unfolding in_set_conv_nth by blast
    from slot [OF that(2)] obtain i where i: "i < n" "a + i < length cs" "cs ! (a + i) = u"
      by blast
    have "uniform lb pa' (lb ! (a + i))" using un i by simp
    then have "pa' ! j = pa' ! (a + i)"
      by (rule uniformD) (use j i that(3) lbn len lcs in simp_all)
    then show ?thesis using pa'n j i by simp
  qed
  have gu: "group_uniform s L \<longleftrightarrow> uniform lb pa L" for L
    by (simp add: group_uniform_iff lb_def pa_def cs_def param_array_def)
  have 2: "f (tie x) (val x) = val x" if "x \<in> set cs" "group_uniform s (tie x)" for x
  proof -
    from that(1) obtain j where j: "j < length cs" "cs ! j = x"
      unfolding in_set_conv_nth by blast
    have "uniform lb pa (lb ! j)" using that(2) j lbn by (simp add: gu)
    then have "pa' ! j = pa ! j" using ok j lcs unfolding step_ok_def by simp
    then show ?thesis using pa'n pan j by simp
  qed
  have 3: "f (tie x) (val x) = val x" if "x \<in> set cs" "tie x \<notin> tie ` set (tied_cells s)" for x
  proof -
    from that(1) obtain j where j: "j < length cs" "cs ! j = x"
      unfolding in_set_conv_nth by blast
    have "\<forall>i\<in>set [0..<n]. lb ! j \<noteq> lb ! (a + i)"
    proof
      fix i assume "i \<in> set [0..<n]"
      then have i: "i < n" by simp
      have "a + i < length cs" using slot [OF slot' [OF i]] i
        using tie_start_le [of s] by (simp add: cs_def a_def n_def length_flat_cells)
      then have "lb ! (a + i) = tie (cs ! (a + i))" by (rule lbn)
      then show "lb ! j \<noteq> lb ! (a + i)"
        using that(2) slot' [OF i] j lbn by auto
    qed
    then have "pa' ! j = pa ! j" using ot j lcs by simp
    then show ?thesis using pa'n pan j by simp
  qed
  have 4: "c \<longleftrightarrow> \<not> consistent s"
  proof -
    have "consistent s \<longleftrightarrow> (\<forall>i\<in>set [0..<n]. uniform lb pa (lb ! (a + i)))"
    proof
      assume cs: "consistent s"
      show "\<forall>i\<in>set [0..<n]. uniform lb pa (lb ! (a + i))"
      proof
        fix i assume "i \<in> set [0..<n]"
        then have i: "i < n" by simp
        have ai: "a + i < length cs"
          using i tie_start_le [of s] by (simp add: cs_def a_def n_def length_flat_cells)
        have "group_uniform s (tie (cs ! (a + i)))"
          using cs slot' [OF i] unfolding consistent_iff by blast
        then show "uniform lb pa (lb ! (a + i))" using lbn [OF ai] by (simp add: gu)
      qed
    next
      assume u: "\<forall>i\<in>set [0..<n]. uniform lb pa (lb ! (a + i))"
      show "consistent s"
        unfolding consistent_iff
      proof
        fix u' assume "u' \<in> set (tied_cells s)"
        from slot [OF this] obtain i where i: "i < n" "a + i < length cs" "cs ! (a + i) = u'"
          by blast
        have "uniform lb pa (lb ! (a + i))" using u i by simp
        then show "group_uniform s (tie u')" using lbn [OF i(2)] i(3) by (simp add: gu)
      qed
    qed
    then show ?thesis using cc by simp
  qed
  show ?thesis
    using res 1 2 3 4 unfolding cs_def
    by (intro exI [of _ c] exI [of _ f]) blast
qed

lemma group_sum_update_other:
  assumes "length lb = length g" "k < length g" "lb ! k \<noteq> L"
  shows "group_sum lb (g[k := v]) L = group_sum lb g L"
  using assms unfolding group_sum_def
proof (induction lb g arbitrary: k rule: list_induct2)
  case Nil
  then show ?case by simp
next
  case (Cons l lb x g)
  show ?case
  proof (cases k)
    case 0
    then show ?thesis using Cons.prems by simp
  next
    case (Suc k')
    then show ?thesis using Cons.prems Cons.IH [of k'] by simp
  qed
qed

lemma collate_group_fresh:
  assumes "length lb = length g" "i < length bi" "bi ! i = a + i" "a + i < length lb"
  shows "collate_group lb bi a i g = Inr (g[a + i := group_sum lb g (lb ! (a + i))])"
  using assms by (simp add: collate_group_def group_sum_def Let_def)

lemma collate_loop_fresh:
  assumes "length lb = length g"
    and "\<forall>i\<in>set is. i < length bi \<and> bi ! i = a + i \<and> a + i < length lb"
  shows "\<exists>g'. collate_loop lb bi a is g = Inr g' \<and> length g' = length g \<and>
           (\<forall>j<length g. j \<notin> (\<lambda>i. a + i) ` set is \<longrightarrow> g' ! j = g ! j) \<and>
           (distinct is \<and> (\<forall>i\<in>set is. \<forall>i'\<in>set is. lb ! (a + i) = lb ! (a + i') \<longrightarrow> i = i') \<longrightarrow>
              (\<forall>i\<in>set is. g' ! (a + i) = group_sum lb g (lb ! (a + i))))"
  using assms
proof (induction "is" arbitrary: g)
  case Nil
  then show ?case by simp
next
  case (Cons i "is")
  from Cons.prems have i: "i < length bi" "bi ! i = a + i" "a + i < length lb" by auto
  define g1 where "g1 = g[a + i := group_sum lb g (lb ! (a + i))]"
  have st: "collate_group lb bi a i g = Inr g1"
    unfolding g1_def by (rule collate_group_fresh [OF Cons.prems(1) i])
  have len1: "length lb = length g1" using Cons.prems(1) by (simp add: g1_def)
  have rest: "\<forall>i\<in>set is. i < length bi \<and> bi ! i = a + i \<and> a + i < length lb"
    using Cons.prems(2) by simp
  from Cons.IH [OF len1 rest]
  obtain g' where r: "collate_loop lb bi a is g1 = Inr g'"
    and l: "length g' = length g1"
    and o: "\<forall>j<length g1. j \<notin> (\<lambda>i. a + i) ` set is \<longrightarrow> g' ! j = g1 ! j"
    and d: "distinct is \<and> (\<forall>i\<in>set is. \<forall>i'\<in>set is. lb ! (a + i) = lb ! (a + i') \<longrightarrow> i = i') \<longrightarrow>
              (\<forall>i\<in>set is. g' ! (a + i) = group_sum lb g1 (lb ! (a + i)))"
    by blast
  have e: "collate_loop lb bi a (i # is) g = Inr g'" using st r by simp
  have lg: "length g' = length g" using l by (simp add: g1_def)
  have og: "\<forall>j<length g. j \<notin> (\<lambda>i. a + i) ` set (i # is) \<longrightarrow> g' ! j = g ! j"
  proof (intro allI impI)
    fix j assume j: "j < length g" "j \<notin> (\<lambda>i. a + i) ` set (i # is)"
    then have "j \<noteq> a + i" "j \<notin> (\<lambda>i. a + i) ` set is" by auto
    then have "g' ! j = g1 ! j" "g1 ! j = g ! j" using o j(1) by (simp_all add: g1_def)
    then show "g' ! j = g ! j" by simp
  qed
  have dg: "\<forall>k\<in>set (i # is). g' ! (a + k) = group_sum lb g (lb ! (a + k))"
    if dd: "distinct (i # is)"
      and inj: "\<forall>k\<in>set (i # is). \<forall>k'\<in>set (i # is). lb ! (a + k) = lb ! (a + k') \<longrightarrow> k = k'"
  proof
    fix k assume k: "k \<in> set (i # is)"
    have ai: "a + i < length g" using i(3) Cons.prems(1) by simp
    show "g' ! (a + k) = group_sum lb g (lb ! (a + k))"
    proof (cases "k = i")
      case True
      have "a + i \<notin> (\<lambda>i. a + i) ` set is" using dd by auto
      then have "g' ! (a + i) = g1 ! (a + i)" using o ai by (simp add: g1_def)
      then show ?thesis using True ai by (simp add: g1_def)
    next
      case False
      then have kin: "k \<in> set is" using k by simp
      have "lb ! (a + i) \<noteq> lb ! (a + k)" using inj k False by auto
      then have gs: "group_sum lb g1 (lb ! (a + k)) = group_sum lb g (lb ! (a + k))"
        unfolding g1_def by (intro group_sum_update_other [OF Cons.prems(1) ai])
      have "g' ! (a + k) = group_sum lb g1 (lb ! (a + k))"
        using d dd inj kin by simp
      then show ?thesis using gs by simp
    qed
  qed
  show ?case using e lg og dg by blast
qed

lemma sum_select_filter:
  "sum_list (select (map (\<lambda>l. l = L) (map tie cs)) (map grad cs)) =
   sum_list (map grad (filter (\<lambda>c. tie c = L) cs))"
  by (induction cs) simp_all

lemma set_grads_props:
  assumes "length gs = length t"
  shows "map val (set_grads t gs) = map val t" "map tie (set_grads t gs) = map tie t"
    "map grad (set_grads t gs) = gs" "length (set_grads t gs) = length t"
proof -
  have "length t = length gs" using assms by simp
  then show "map val (set_grads t gs) = map val t" "map tie (set_grads t gs) = map tie t"
    "map grad (set_grads t gs) = gs" "length (set_grads t gs) = length t"
    by (induction t gs rule: list_induct2) (simp_all add: set_grads_def)
qed

lemma set_grads_zeroed:
  assumes "length gs = length t"
  shows "set_grads (map (\<lambda>c. c\<lparr>grad := 0\<rparr>) t) gs = set_grads t gs"
proof -
  have "length t = length gs" using assms by simp
  then show ?thesis
    by (induction t gs rule: list_induct2) (simp_all add: set_grads_def)
qed

lemma with_slot_grads_params [simp]:
  "params (with_slot_grads s gs) = params s"
  "tie_offset (with_slot_grads s gs) = tie_offset s"
  "label_buf (with_slot_grads s gs) = label_buf s"
  "buf_idx (with_slot_grads s gs) = buf_idx s"
  "PROPAGATE_VAL (with_slot_grads s gs) = PROPAGATE_VAL s"
  "tie_start (with_slot_grads s gs) = tie_start s"
  "leaf (with_slot_grads s gs) k = leaf s k"
  by (simp_all add: with_slot_grads_def tie_start_def leaf_def)

lemma tied_cells_with_slot_grads:
  "tied_cells (with_slot_grads s gs) = set_grads (tied_cells s) gs"
  by (cases "tied_param s") (simp_all add: with_slot_grads_def tied_cells_def set_grads_def)

lemma with_slot_grads_flat:
  assumes "length gs = length (tied_cells s)"
  shows "map val (flat_cells (with_slot_grads s gs)) = map val (flat_cells s)"
    and "map tie (flat_cells (with_slot_grads s gs)) = map tie (flat_cells s)"
    and "length (tied_cells (with_slot_grads s gs)) = length (tied_cells s)"
  using set_grads_props [OF assms]
  by (simp_all add: flat_cells_def tied_cells_with_slot_grads)

lemma set_gradient_slots:
  assumes l: "length g' = length (flat_cells s)"
    and o: "\<forall>j<length g'. j \<notin> (\<lambda>i. tie_start s + i) ` set [0..<length (tied_cells s)] \<longrightarrow>
              g' ! j = gradient s ! j"
  shows "set_gradient s g' =
         with_slot_grads s (take (length (tied_cells s)) (drop (tie_start s) g'))"
proof -
  let ?a = "tie_start s" and ?n = "length (tied_cells s)" and ?F = "concat (params s)"
  let ?f = "\<lambda>c v. c\<lparr>grad := v\<rparr>"
  have a: "?a \<le> length ?F" by (rule tie_start_le)
  have lg: "length g' = length ?F + ?n" using l by (simp add: length_flat_cells)
  have sg: "set_grads = (\<lambda>p. map2 ?f p)" by (simp add: set_grads_def fun_eq_iff)
  have t: "take ?a g' = map grad (take ?a ?F)"
  proof (rule nth_equalityI)
    show "length (take ?a g') = length (map grad (take ?a ?F))" using lg a by simp
    fix j assume j: "j < length (take ?a g')"
    then have j': "j < ?a" "j < length g'" by simp_all
    then have "j \<notin> (\<lambda>i. ?a + i) ` set [0..<?n]" by auto
    then have "g' ! j = gradient s ! j" using o j'(2) by blast
    also have "\<dots> = grad (take ?a ?F ! j)"
      using j' a by (simp add: gradient_def flat_cells_def nth_append)
    finally show "take ?a g' ! j = map grad (take ?a ?F) ! j" using j' a by simp
  qed
  have d: "drop (?a + ?n) g' = map grad (drop ?a ?F)"
  proof (rule nth_equalityI)
    show "length (drop (?a + ?n) g') = length (map grad (drop ?a ?F))" using lg a by simp
    fix j assume j: "j < length (drop (?a + ?n) g')"
    then have j': "?a + ?n + j < length g'" by simp
    have "?a + ?n + j \<notin> (\<lambda>i. ?a + i) ` set [0..<?n]" by auto
    then have "g' ! (?a + ?n + j) = gradient s ! (?a + ?n + j)" using o j' by blast
    also have "\<dots> = grad (drop ?a ?F ! j)"
      using j' a lg by (simp add: gradient_def flat_cells_def nth_append)
    finally show "drop (?a + ?n) g' ! j = map grad (drop ?a ?F) ! j" using j' a lg by simp
  qed
  have w: "take ?a g' @ drop (?a + ?n) g' = map grad ?F"
    unfolding t d by (simp flip: map_append)
  have p: "map2 (\<lambda>p. map2 ?f p) (params s) (split_like (params s) (map grad ?F)) = params s"
    by (rule map2_split_like_id) simp
  show ?thesis
    unfolding set_gradient_def Let_def w with_slot_grads_def using p by (simp add: sg)
qed

lemma zero_tied_gradient_props [simp]:
  "params (zero_tied_gradient s) = params s"
  "tie_start (zero_tied_gradient s) = tie_start s"
  "tied_cells (zero_tied_gradient s) = map (\<lambda>c. c\<lparr>grad := 0\<rparr>) (tied_cells s)"
  "label_buf (zero_tied_gradient s) = label_buf s"
  "buf_idx (zero_tied_gradient s) = buf_idx s"
  by (cases "tied_param s"; simp add: zero_tied_gradient_def tie_start_def tied_cells_def)+

lemma with_slot_grads_zero:
  "length gs = length (tied_cells s) \<Longrightarrow>
   with_slot_grads (zero_tied_gradient s) gs = with_slot_grads s gs"
  by (cases "tied_param s")
     (simp_all add: with_slot_grads_def zero_tied_gradient_def tied_cells_def set_grads_zeroed)

lemma sum_zeroed: "sum_list (map grad (filter P (map (\<lambda>c. c\<lparr>grad := 0\<rparr>) t))) = 0"
  by (induction t) simp_all

lemma filter_tie_zeroed:
  "filter (\<lambda>c. tie c = L) (map (\<lambda>c. c\<lparr>grad := 0::real\<rparr>) t) =
   map (\<lambda>c. c\<lparr>grad := 0\<rparr>) (filter (\<lambda>c. tie c = L) t)"
  by (induction t) simp_all

lemma collate_gradient_fresh:
  assumes f: "fresh s"
  shows "\<exists>gs. collate_gradient s = Inr (with_slot_grads s gs) \<and>
           length gs = length (tied_cells s) \<and>
           (distinct (map tie (tied_cells s)) \<longrightarrow>
              (\<forall>i<length (tied_cells s).
                 gs ! i = sum_list (map grad (filter (\<lambda>c. tie c = tie (tied_cells s ! i))
                                                (concat (params s))))))"
proof (cases "tied_param s")
  case None
  then have "collate_gradient s = Inr (with_slot_grads s [])"
    by (simp add: collate_gradient_def with_slot_grads_def)
  then show ?thesis using None by (intro exI [of _ "[]"]) (simp add: tied_cells_def)
next
  case (Some t)
  show ?thesis
  proof (cases "t = []")
    case True
    then have "collate_gradient s = Inr (with_slot_grads s [])"
      using Some by (simp add: collate_gradient_def with_slot_grads_def zero_tied_gradient_def
          set_grads_def)
    then show ?thesis using Some True by (intro exI [of _ "[]"]) (simp add: tied_cells_def)
  next
    case False
    define s0 where "s0 = zero_tied_gradient s"
    define lb where "lb = map tie (flat_cells s)"
    define a where "a = tie_start s"
    define n where "n = length (tied_cells s)"
    define bi where "bi = [a..<a + n]"
    define g0 where "g0 = gradient s0"
    have tc: "tied_cells s = t" using Some by (simp add: tied_cells_def)
    have lbs: "label_buf s = Some lb" and bis: "buf_idx s = Some bi"
      using f False by (simp_all add: fresh_def lb_def bi_def a_def n_def tc)
    have fl0: "flat_cells s0 = take a (concat (params s)) @ map (\<lambda>c. c\<lparr>grad := 0\<rparr>) t @
                 drop a (concat (params s))"
      by (simp add: flat_cells_def s0_def a_def tc)
    have lb0: "lb = map tie (flat_cells s0)"
      unfolding fl0 lb_def by (simp add: flat_cells_def a_def tc comp_def)
    have len: "length lb = length g0"
      by (simp add: lb0 g0_def gradient_def)
    have lfl: "length (flat_cells s0) = length (flat_cells s)"
      unfolding fl0 by (simp add: flat_cells_def a_def tc)
    have idx: "\<forall>i\<in>set [0..<n]. i < length bi \<and> bi ! i = a + i \<and> a + i < length lb"
      using fresh_loop_indices(2) [of s] by (simp add: bi_def lb_def a_def n_def)
    from collate_loop_fresh [OF len idx]
    obtain g' where r: "collate_loop lb bi a [0..<n] g0 = Inr g'"
      and l: "length g' = length g0"
      and o: "\<forall>j<length g0. j \<notin> (\<lambda>i. a + i) ` set [0..<n] \<longrightarrow> g' ! j = g0 ! j"
      and d: "distinct [0..<n] \<and>
              (\<forall>i\<in>set [0..<n]. \<forall>i'\<in>set [0..<n]. lb ! (a + i) = lb ! (a + i') \<longrightarrow> i = i') \<longrightarrow>
              (\<forall>i\<in>set [0..<n]. g' ! (a + i) = group_sum lb g0 (lb ! (a + i)))"
      by blast
    define gs where "gs = take n (drop a g')"
    have lg': "length g' = length (flat_cells s0)"
      using l by (simp add: g0_def gradient_def)
    have o': "\<forall>j<length g'. j \<notin> (\<lambda>i. tie_start s0 + i) ` set [0..<length (tied_cells s0)] \<longrightarrow>
                g' ! j = gradient s0 ! j"
      using o l by (simp add: s0_def a_def n_def g0_def)
    have "collate_gradient s = Inr (set_gradient s0 g')"
      using Some False lbs bis r
      by (simp add: collate_gradient_def Let_def s0_def a_def n_def g0_def tc)
    also have "set_gradient s0 g' = with_slot_grads s0 gs"
      using set_gradient_slots [OF lg' o'] by (simp add: gs_def s0_def a_def n_def)
    finally have res0: "collate_gradient s = Inr (with_slot_grads s0 gs)" .
    have an: "a + n \<le> length g'"
      using lg' lfl tie_start_le [of s] by (simp add: length_flat_cells a_def n_def)
    then have lgs: "length gs = length (tied_cells s)"
      by (simp add: gs_def n_def)
    have res: "collate_gradient s = Inr (with_slot_grads s gs)"
      using res0 with_slot_grads_zero [OF lgs] by (simp add: s0_def)
    have sums: "gs ! i = sum_list (map grad (filter (\<lambda>c. tie c = tie (tied_cells s ! i))
                                                (concat (params s))))"
      if dist: "distinct (map tie (tied_cells s))" and i: "i < length (tied_cells s)" for i
    proof -
      have lbt: "lb ! (a + k) = tie (t ! k)" if "k < n" for k
        using that tied_nth_flat [of k s] tie_start_le [of s]
        by (simp add: lb_def a_def n_def tc length_flat_cells)
      have inj: "\<forall>k\<in>set [0..<n]. \<forall>k'\<in>set [0..<n]. lb ! (a + k) = lb ! (a + k') \<longrightarrow> k = k'"
      proof (intro ballI impI)
        fix k k' assume k: "k \<in> set [0..<n]" "k' \<in> set [0..<n]" "lb ! (a + k) = lb ! (a + k')"
        then have "k < n" "k' < n" by simp_all
        then have e: "map tie t ! k = map tie t ! k'" and kl: "k < length (map tie t)"
          and kl': "k' < length (map tie t)"
          using k(3) lbt by (simp_all add: n_def tc)
        have dt: "distinct (map tie t)" using dist by (simp add: tc)
        show "k = k'" using nth_eq_iff_index_eq [OF dt kl kl'] e by blast
      qed
      have iin: "i \<in> set [0..<n]" using i by (simp add: n_def)
      have "distinct [0..<n]" by simp
      with d inj have "\<forall>i\<in>set [0..<n]. g' ! (a + i) = group_sum lb g0 (lb ! (a + i))"
        by blast
      with iin have "g' ! (a + i) = group_sum lb g0 (lb ! (a + i))" by blast
      moreover have "gs ! i = g' ! (a + i)" using i an by (simp add: gs_def n_def)
      moreover have "group_sum lb g0 L =
            sum_list (map grad (filter (\<lambda>c. tie c = L) (concat (params s))))" for L
      proof -
        let ?F = "concat (params s)" and ?P = "\<lambda>c. tie c = L"
        have "group_sum lb g0 L = sum_list (map grad (filter ?P (flat_cells s0)))"
          unfolding group_sum_def lb0 g0_def gradient_def by (rule sum_select_filter)
        also have "\<dots> = sum_list (map grad (filter ?P (take a ?F))) +
                        sum_list (map grad (filter ?P (drop a ?F)))"
          unfolding fl0 by (simp add: sum_zeroed)
        also have "\<dots> = sum_list (map grad (filter ?P (take a ?F @ drop a ?F)))"
          by (simp only: filter_append map_append sum_list_append)
        also have "\<dots> = sum_list (map grad (filter ?P ?F))"
          by (simp only: append_take_drop_id)
        finally show ?thesis .
      qed
      ultimately show ?thesis using lbt [of i] i by (simp add: n_def tc)
    qed
    show ?thesis using res lgs sums by blast
  qed
qed

lemma map_eq_nthD:
  assumes "map f xs = map g ys" "i < length xs"
  shows "f (xs ! i) = g (ys ! i)"
proof -
  have l: "length ys = length xs" using assms(1) by (rule map_eq_imp_length_eq [symmetric])
  have "map f xs ! i = map g ys ! i" using assms(1) by simp
  then show ?thesis using assms(2) l by simp
qed

lemma set_flat_cells: "set (flat_cells s) = set (concat (params s)) \<union> set (tied_cells s)"
proof -
  have "set (concat (params s)) =
        set (take (tie_start s) (concat (params s))) \<union> set (drop (tie_start s) (concat (params s)))"
    by (metis append_take_drop_id set_append)
  then show ?thesis unfolding flat_cells_def by auto
qed

lemma map_cells_cong_id:
  assumes "\<forall>x\<in>set (flat_cells s). h x = x"
  shows "map_cells h s = s"
proof -
  have p: "map (map h) (params s) = params s"
  proof (rule map_idI, rule map_idI)
    fix p x assume "p \<in> set (params s)" "x \<in> set p"
    then have "x \<in> set (flat_cells s)" unfolding set_flat_cells by auto
    then show "h x = x" using assms by blast
  qed
  have t: "map_option (map h) (tied_param s) = tied_param s"
  proof (cases "tied_param s")
    case None
    then show ?thesis by simp
  next
    case (Some t)
    have "map h t = t"
    proof (rule map_idI)
      fix x assume "x \<in> set t"
      then have "x \<in> set (flat_cells s)" unfolding set_flat_cells using Some
        by (simp add: tied_cells_def)
      then show "h x = x" using assms by blast
    qed
    then show ?thesis using Some by simp
  qed
  show ?thesis unfolding map_cells_def p t by simp
qed

lemma revalued_flat:
  assumes "revalued f s s'"
  shows "tie_start s' = tie_start s"
    and "map tie (flat_cells s') = map tie (flat_cells s)"
    and "map val (flat_cells s') = map (\<lambda>x. f (tie x) (val x)) (flat_cells s)"
    and "length (tied_cells s') = length (tied_cells s)"
    and "leaf s' k = map (\<lambda>x. x\<lparr>val := f (tie x) (val x)\<rparr>) (leaf s k)"
proof -
  let ?h = "\<lambda>x. x\<lparr>val := f (tie x) (val x)\<rparr>"
  from assms have p: "params s' = map (map ?h) (params s)"
    and tt: "map tie (tied_cells s') = map tie (tied_cells s)"
    and tv: "map val (tied_cells s') = map (\<lambda>x. f (tie x) (val x)) (tied_cells s)"
    and o: "tie_offset s' = tie_offset s"
    unfolding revalued_def by blast+
  have c: "concat (params s') = map ?h (concat (params s))"
    unfolding p by (simp add: map_concat)
  show ts: "tie_start s' = tie_start s"
    unfolding tie_start_def c o by simp
  show "length (tied_cells s') = length (tied_cells s)"
    using tt by (rule map_eq_imp_length_eq)
  show "map tie (flat_cells s') = map tie (flat_cells s)"
    unfolding flat_cells_def ts c using tt by (simp add: take_map drop_map)
  show "map val (flat_cells s') = map (\<lambda>x. f (tie x) (val x)) (flat_cells s)"
    unfolding flat_cells_def ts c using tv by (simp add: take_map drop_map)
  show "leaf s' k = map ?h (leaf s k)"
    unfolding leaf_def p by simp
qed

lemma revalued_fresh:
  assumes "revalued f s s'" "fresh s"
  shows "fresh s'"
proof -
  note r = revalued_flat [OF assms(1)]
  have e: "tied_cells s' = [] \<longleftrightarrow> tied_cells s = []"
    using r(4) length_0_conv [of "tied_cells s'"] length_0_conv [of "tied_cells s"] by simp
  have "label_buf s' = label_buf s" "buf_idx s' = buf_idx s"
    using assms(1) unfolding revalued_def by blast+
  then show ?thesis using assms(2) unfolding fresh_def e r(1) r(2) r(4) by simp
qed

lemma revalued_trans:
  assumes "revalued f s s1" "revalued f' s1 s2"
  shows "revalued (\<lambda>L v. f' L (f L v)) s s2"
proof -
  have v: "map val (tied_cells s2) = map (\<lambda>x. f' (tie x) (f (tie x) (val x))) (tied_cells s)"
  proof (rule nth_equalityI)
    show "length (map val (tied_cells s2)) = length (map (\<lambda>x. f' (tie x) (f (tie x) (val x))) (tied_cells s))"
      using revalued_flat(4) [OF assms(1)] revalued_flat(4) [OF assms(2)] by simp
    fix i assume "i < length (map val (tied_cells s2))"
    then have i: "i < length (tied_cells s)" "i < length (tied_cells s1)" "i < length (tied_cells s2)"
      using revalued_flat(4) [OF assms(1)] revalued_flat(4) [OF assms(2)] by simp_all
    have v2: "map val (tied_cells s2) = map (\<lambda>x. f' (tie x) (val x)) (tied_cells s1)"
      and v1: "map val (tied_cells s1) = map (\<lambda>x. f (tie x) (val x)) (tied_cells s)"
      and t1: "map tie (tied_cells s1) = map tie (tied_cells s)"
      using assms unfolding revalued_def by blast+
    have a: "map val (tied_cells s2) ! i = f' (tie (tied_cells s1 ! i)) (val (tied_cells s1 ! i))"
      using map_eq_nthD [OF v2 i(3)] i(3) by simp
    have b: "val (tied_cells s1 ! i) = f (tie (tied_cells s ! i)) (val (tied_cells s ! i))"
      by (rule map_eq_nthD [OF v1 i(2)])
    have c: "tie (tied_cells s1 ! i) = tie (tied_cells s ! i)"
      by (rule map_eq_nthD [OF t1 i(2)])
    show "map val (tied_cells s2) ! i = map (\<lambda>x. f' (tie x) (f (tie x) (val x))) (tied_cells s) ! i"
      unfolding a b c using i by simp
  qed
  show ?thesis
    using assms v unfolding revalued_def by (simp add: comp_def)
qed

lemma revalued_map_cells:
  "revalued f s (map_cells (\<lambda>x. x\<lparr>val := f (tie x) (val x)\<rparr>) s)"
  by (simp add: revalued_def comp_def)

lemma revalued_with_slot_grads:
  assumes "length gs = length (tied_cells s)"
  shows "revalued (\<lambda>L v. v) s (with_slot_grads s gs)"
proof -
  note sp = set_grads_props [OF assms]
  have n: "tied_param (with_slot_grads s gs) = None \<longleftrightarrow> tied_param s = None"
    by (cases "tied_param s") (simp_all add: with_slot_grads_def)
  show ?thesis
    unfolding revalued_def tied_cells_with_slot_grads sp(1) sp(2) using n
    by (simp add: map_idI)
qed

lemma revalued_refl_fields:
  assumes "params s' = params s" "tied_param s' = tied_param s" "label_buf s' = label_buf s"
    "buf_idx s' = buf_idx s" "tie_offset s' = tie_offset s"
  shows "revalued (\<lambda>L v. v) s s'"
  using assms by (simp add: revalued_def tied_cells_def map_idI)

lemma revalued_consistent:
  assumes r: "revalued f s s'"
    and p: "\<forall>x\<in>set (flat_cells s). \<forall>t\<in>set (tied_cells s).
              tie x = tie t \<longrightarrow> f (tie x) (val x) = f (tie t) (val t)"
  shows "consistent s'"
  unfolding consistent_def
proof (intro ballI impI)
  fix x t assume a: "x \<in> set (flat_cells s')" "t \<in> set (tied_cells s')" "tie x = tie t"
  note rf = revalued_flat [OF r]
  have lf: "length (flat_cells s') = length (flat_cells s)"
    using rf(2) by (rule map_eq_imp_length_eq)
  from a(1) obtain j where j: "j < length (flat_cells s')" "flat_cells s' ! j = x"
    unfolding in_set_conv_nth by blast
  from a(2) obtain i where i: "i < length (tied_cells s')" "tied_cells s' ! i = t"
    unfolding in_set_conv_nth by blast
  let ?x0 = "flat_cells s ! j" and ?t0 = "tied_cells s ! i"
  have x0: "?x0 \<in> set (flat_cells s)" using j lf by simp
  have t0: "?t0 \<in> set (tied_cells s)" using i rf(4) by simp
  have tvs: "map val (tied_cells s') = map (\<lambda>x. f (tie x) (val x)) (tied_cells s)"
    and tts: "map tie (tied_cells s') = map tie (tied_cells s)"
    using r unfolding revalued_def by blast+
  have tx: "tie x = tie ?x0" using map_eq_nthD [OF rf(2) j(1)] j(2) by simp
  have vx: "val x = f (tie ?x0) (val ?x0)" using map_eq_nthD [OF rf(3) j(1)] j(2) by simp
  have tt: "tie t = tie ?t0" using map_eq_nthD [OF tts i(1)] i(2) by simp
  have vt: "val t = f (tie ?t0) (val ?t0)" using map_eq_nthD [OF tvs i(1)] i(2) by simp
  have "tie ?x0 = tie ?t0" using a(3) tx tt by simp
  then have "f (tie ?x0) (val ?x0) = f (tie ?t0) (val ?t0)" using p x0 t0 by blast
  then show "val x = val t" unfolding vx vt .
qed

lemma flag_updates [simp]:
  "flat_cells (s\<lparr>update_on := b\<rparr>) = flat_cells s"
  "flat_cells (s\<lparr>optimizer_copy_transformed := b\<rparr>) = flat_cells s"
  "flat_cells (s\<lparr>PROPAGATE_VAL := b\<rparr>) = flat_cells s"
  "tied_cells (s\<lparr>update_on := b\<rparr>) = tied_cells s"
  "tied_cells (s\<lparr>optimizer_copy_transformed := b\<rparr>) = tied_cells s"
  "tied_cells (s\<lparr>PROPAGATE_VAL := b\<rparr>) = tied_cells s"
  "tie_start (s\<lparr>update_on := b\<rparr>) = tie_start s"
  "tie_start (s\<lparr>optimizer_copy_transformed := b\<rparr>) = tie_start s"
  "tie_start (s\<lparr>PROPAGATE_VAL := b\<rparr>) = tie_start s"
  "leaf (s\<lparr>optimizer_copy_transformed := b\<rparr>) = leaf s"
  "leaf (s\<lparr>PROPAGATE_VAL := b\<rparr>) = leaf s"
  by (simp_all add: flat_cells_def tied_cells_def tie_start_def leaf_def fun_eq_iff)

lemma flag_updates_pred [simp]:
  "fresh (s\<lparr>update_on := b\<rparr>) = fresh s"
  "fresh (s\<lparr>optimizer_copy_transformed := b\<rparr>) = fresh s"
  "fresh (s\<lparr>PROPAGATE_VAL := b\<rparr>) = fresh s"
  "consistent (s\<lparr>update_on := b\<rparr>) = consistent s"
  "consistent (s\<lparr>optimizer_copy_transformed := b\<rparr>) = consistent s"
  "consistent (s\<lparr>PROPAGATE_VAL := b\<rparr>) = consistent s"
  "group_uniform (s\<lparr>update_on := b\<rparr>) = group_uniform s"
  "group_uniform (s\<lparr>optimizer_copy_transformed := b\<rparr>) = group_uniform s"
  "group_uniform (s\<lparr>PROPAGATE_VAL := b\<rparr>) = group_uniform s"
  by (simp_all add: fresh_def consistent_def group_uniform_def fun_eq_iff)

lemma check_change_consistent:
  assumes f: "fresh s" and c: "consistent s"
  shows "check_change s = Inr (False, s)"
proof -
  from check_change_fresh [OF f]
  obtain ch g where r: "check_change s = Inr (ch, map_cells (\<lambda>x. x\<lparr>val := g (tie x) (val x)\<rparr>) s)"
    and p2: "\<forall>x\<in>set (flat_cells s). group_uniform s (tie x) \<longrightarrow> g (tie x) (val x) = val x"
    and p3: "\<forall>x\<in>set (flat_cells s). tie x \<notin> tie ` set (tied_cells s) \<longrightarrow> g (tie x) (val x) = val x"
    and cc: "ch \<longleftrightarrow> \<not> consistent s"
    by blast
  have "g (tie x) (val x) = val x" if x: "x \<in> set (flat_cells s)" for x
  proof (cases "tie x \<in> tie ` set (tied_cells s)")
    case True
    then obtain t where "t \<in> set (tied_cells s)" "tie x = tie t" by blast
    then have "group_uniform s (tie x)" using c unfolding consistent_iff by simp
    then show ?thesis using p2 x by blast
  next
    case False
    then show ?thesis using p3 x by blast
  qed
  then have "map_cells (\<lambda>x. x\<lparr>val := g (tie x) (val x)\<rparr>) s = s"
    by (intro map_cells_cong_id) simp
  then show ?thesis using r cc c by simp
qed

lemma collate_gradient_revalued:
  assumes "fresh s"
  shows "\<exists>s'. collate_gradient s = Inr s' \<and> revalued (\<lambda>L v. v) s s' \<and>
           PROPAGATE_VAL s' = PROPAGATE_VAL s \<and> update_on s' = update_on s \<and>
           uninit s' = uninit s \<and> uninit_grad s' = uninit_grad s"
proof -
  from collate_gradient_fresh [OF assms]
  obtain gs where "collate_gradient s = Inr (with_slot_grads s gs)"
    "length gs = length (tied_cells s)" by blast
  then show ?thesis
    using revalued_with_slot_grads [of gs s]
    by (intro exI [of _ "with_slot_grads s gs"]) (simp add: with_slot_grads_def)
qed

lemma parameters_changed_fresh:
  assumes f: "fresh s"
  shows "\<exists>g s'. parameters_changed s = Some (Inr s') \<and> revalued g s s' \<and>
           \<not> PROPAGATE_VAL s' \<and> update_on s' = update_on s \<and>
           uninit s' = uninit s \<and> uninit_grad s' = uninit_grad s \<and>
           (PROPAGATE_VAL s \<longrightarrow> g = (\<lambda>L v. v)) \<and>
           (\<not> PROPAGATE_VAL s \<longrightarrow>
              (\<forall>x\<in>set (flat_cells s). \<forall>t\<in>set (tied_cells s).
                 tie x = tie t \<longrightarrow> g (tie x) (val x) = g (tie t) (val t)) \<and>
              (\<forall>x\<in>set (flat_cells s). group_uniform s (tie x) \<longrightarrow> g (tie x) (val x) = val x) \<and>
              (\<forall>x\<in>set (flat_cells s). tie x \<notin> tie ` set (tied_cells s) \<longrightarrow>
                 g (tie x) (val x) = val x))"
proof (cases "PROPAGATE_VAL s")
  case True
  let ?s0 = "s\<lparr>PROPAGATE_VAL := False\<rparr>"
  have f0: "fresh ?s0" using f by simp
  from collate_gradient_revalued [OF f0]
  obtain s' where c: "collate_gradient ?s0 = Inr s'" and r: "revalued (\<lambda>L v. v) ?s0 s'"
    and fl: "PROPAGATE_VAL s' = PROPAGATE_VAL ?s0" "update_on s' = update_on ?s0"
      "uninit s' = uninit ?s0" "uninit_grad s' = uninit_grad ?s0"
    by blast
  have r0: "revalued (\<lambda>L v. v) s ?s0" by (rule revalued_refl_fields) simp_all
  have rr: "revalued (\<lambda>L v. v) s s'" using revalued_trans [OF r0 r] by simp
  have "parameters_changed s = Some (Inr s')"
    using True c by (subst parameters_changed.simps) simp
  then show ?thesis using rr fl True
    by (intro exI [of _ "\<lambda>L v. v"] exI [of _ s']) simp
next
  case False
  from check_change_fresh [OF f]
  obtain ch g where cc: "check_change s = Inr (ch, map_cells (\<lambda>x. x\<lparr>val := g (tie x) (val x)\<rparr>) s)"
    and p1: "\<forall>x\<in>set (flat_cells s). \<forall>t\<in>set (tied_cells s).
              tie x = tie t \<longrightarrow> g (tie x) (val x) = g (tie t) (val t)"
    and p2: "\<forall>x\<in>set (flat_cells s). group_uniform s (tie x) \<longrightarrow> g (tie x) (val x) = val x"
    and p3: "\<forall>x\<in>set (flat_cells s). tie x \<notin> tie ` set (tied_cells s) \<longrightarrow> g (tie x) (val x) = val x"
    by blast
  define s1 where "s1 = map_cells (\<lambda>x. x\<lparr>val := g (tie x) (val x)\<rparr>) s"
  have r1: "revalued g s s1" unfolding s1_def by (rule revalued_map_cells)
  have f1: "fresh s1" by (rule revalued_fresh [OF r1 f])
  have c1: "consistent s1" by (rule revalued_consistent [OF r1 p1])
  have fl1: "PROPAGATE_VAL s1 = PROPAGATE_VAL s" "update_on s1 = update_on s"
    "uninit s1 = uninit s" "uninit_grad s1 = uninit_grad s"
    by (simp_all add: s1_def map_cells_def)
  have "\<exists>s'. parameters_changed s = Some (Inr s') \<and> revalued g s s' \<and>
           \<not> PROPAGATE_VAL s' \<and> update_on s' = update_on s \<and>
           uninit s' = uninit s \<and> uninit_grad s' = uninit_grad s"
  proof (cases ch)
    case False
    from collate_gradient_revalued [OF f1]
    obtain s' where c: "collate_gradient s1 = Inr s'" and r: "revalued (\<lambda>L v. v) s1 s'"
      and fl: "PROPAGATE_VAL s' = PROPAGATE_VAL s1" "update_on s' = update_on s1"
        "uninit s' = uninit s1" "uninit_grad s' = uninit_grad s1"
      by blast
    have rr: "revalued g s s'" using revalued_trans [OF r1 r] by simp
    have "parameters_changed s = Some (Inr s')"
      using \<open>\<not> PROPAGATE_VAL s\<close> cc False c
      by (subst parameters_changed.simps) (simp add: s1_def)
    then show ?thesis using rr fl fl1 \<open>\<not> PROPAGATE_VAL s\<close> by (intro exI [of _ s']) simp
  next
    case True
    let ?s1' = "s1\<lparr>optimizer_copy_transformed := False\<rparr>"
    have f1': "fresh ?s1'" using f1 by simp
    have c1': "consistent ?s1'" using c1 by simp
    have r1': "revalued (\<lambda>L v. v) s1 ?s1'" by (rule revalued_refl_fields) simp_all
    from collate_gradient_revalued [OF f1']
    obtain s2 where c2: "collate_gradient ?s1' = Inr s2" and r2: "revalued (\<lambda>L v. v) ?s1' s2"
      and fl2: "PROPAGATE_VAL s2 = PROPAGATE_VAL ?s1'" "update_on s2 = update_on ?s1'"
        "uninit s2 = uninit ?s1'" "uninit_grad s2 = uninit_grad ?s1'"
      by blast
    have inner: "parameters_changed ?s1' = Some (Inr s2)"
      using \<open>\<not> PROPAGATE_VAL s\<close> fl1(1) check_change_consistent [OF f1' c1'] c2
      by (subst parameters_changed.simps) simp
    have f2: "fresh s2" by (rule revalued_fresh [OF r2 f1'])
    from collate_gradient_revalued [OF f2]
    obtain s' where c3: "collate_gradient s2 = Inr s'" and r3: "revalued (\<lambda>L v. v) s2 s'"
      and fl3: "PROPAGATE_VAL s' = PROPAGATE_VAL s2" "update_on s' = update_on s2"
        "uninit s' = uninit s2" "uninit_grad s' = uninit_grad s2"
      by blast
    have "revalued g s ?s1'" using revalued_trans [OF r1 r1'] by simp
    from revalued_trans [OF this r2] have "revalued g s s2" by simp
    from revalued_trans [OF this r3] have rr: "revalued g s s'" by simp
    have "parameters_changed s = Some (Inr s')"
      using \<open>\<not> PROPAGATE_VAL s\<close> cc True inner c3
      by (subst parameters_changed.simps) (simp add: s1_def)
    then show ?thesis using rr fl3 fl2 fl1 \<open>\<not> PROPAGATE_VAL s\<close> by (intro exI [of _ s']) simp
  qed
  then obtain s' where "parameters_changed s = Some (Inr s')" "revalued g s s'"
    "\<not> PROPAGATE_VAL s'" "update_on s' = update_on s" "uninit s' = uninit s"
    "uninit_grad s' = uninit_grad s" by blast
  then show ?thesis using False p1 p2 p3
    by (intro exI [of _ g] exI [of _ s']) simp
qed

lemma update_model_resume: "update_model s True = Some (Inr (s\<lparr>update_on := True\<rparr>))"
  by (simp add: update_model_def parameters_changed_notification_def)

lemma replace_l_relabel:
  "replace_l label_pairs p = map (\<lambda>c. c\<lparr>tie := relabel label_pairs (tie c)\<rparr>) p"
proof (induction label_pairs arbitrary: p)
  case Nil
  show ?case by (simp add: replace_l_def relabel_def)
next
  case (Cons a ps)
  obtain l1 l2 where a: "a = (l1, l2)" by (cases a)
  have "replace_l (a # ps) p = replace_l ps (map (\<lambda>c. if tie c = l1 then c\<lparr>tie := l2\<rparr> else c) p)"
    by (simp add: replace_l_def a)
  also have "\<dots> = map (\<lambda>c. c\<lparr>tie := relabel (a # ps) (tie c)\<rparr>) p"
    unfolding Cons.IH by (simp add: relabel_def a)
  finally show ?case .
qed

lemma replace_labels_map_cells:
  "replace_labels s label_pairs = map_cells (\<lambda>c. c\<lparr>tie := relabel label_pairs (tie c)\<rparr>) s"
  by (simp add: replace_labels_def map_cells_def replace_l_relabel [abs_def])

lemma relabel_to_const:
  "relabel (map (\<lambda>l. (l, L)) ls) l = (if l \<in> set ls then L else l)"
proof (induction ls arbitrary: l)
  case Nil
  show ?case by (simp add: relabel_def)
next
  case (Cons a ls)
  have "relabel (map (\<lambda>l. (l, L)) (a # ls)) l = relabel (map (\<lambda>l. (l, L)) ls) (if l = a then L else l)"
    by (simp add: relabel_def)
  also have "\<dots> = (if l \<in> set (a # ls) then L else l)"
    unfolding Cons.IH by auto
  finally show ?case .
qed

lemma zip_replicate_const: "zip ls (replicate (length ls) c) = map (\<lambda>l. (l, c)) ls"
  by (induction ls) simp_all

lemma select_map_filter: "select (map P xs) (map f xs) = map f (filter P xs)"
  by (induction xs) simp_all

lemma fresh_cells_props:
  assumes "length ls = length vs"
  shows "map val (fresh_cells s off vs ls) = vs" "map tie (fresh_cells s off vs ls) = ls"
    "length (fresh_cells s off vs ls) = length vs"
proof -
  show "map val (fresh_cells s off vs ls) = vs"
    by (rule nth_equalityI) (simp_all add: fresh_cells_def)
  show "map tie (fresh_cells s off vs ls) = ls"
    by (rule nth_equalityI) (simp_all add: fresh_cells_def assms)
  show "length (fresh_cells s off vs ls) = length vs"
    by (simp add: fresh_cells_def)
qed

lemma remove_tie_param_filter:
  assumes t: "tied_param s = Some t"
    and l: "length labels = length (filter (\<lambda>c. tie c \<in> set labels) t)"
  shows "\<exists>s'. remove_tie_param s labels = Inr s' \<and> params s' = params s \<and>
           map tie (tied_cells s') = map tie (filter (\<lambda>c. tie c \<notin> set labels) t) \<and>
           map val (tied_cells s') = map val (filter (\<lambda>c. tie c \<notin> set labels) t) \<and>
           (tied_param s' = None \<longleftrightarrow> length labels = length t) \<and>
           label_buf s' = label_buf s \<and> buf_idx s' = buf_idx s \<and> tie_offset s' = tie_offset s \<and>
           PROPAGATE_VAL s' = PROPAGATE_VAL s \<and> update_on s' = update_on s \<and>
           uninit s' = uninit s \<and> uninit_grad s' = uninit_grad s"
proof -
  let ?in = "\<lambda>c. tie c \<in> set labels" and ?out = "\<lambda>c. tie c \<notin> set labels"
  have sum: "length (filter ?in t) + length (filter ?out t) = length t"
    by (rule sum_length_filter_compl)
  show ?thesis
  proof (cases "length labels = length t")
    case True
    then have "filter ?out t = []" using sum l by simp
    then show ?thesis using t True
      by (intro exI [of _ "s\<lparr>tied_param := None\<rparr>"])
         (simp add: remove_tie_param_def tied_cells_def)
  next
    case False
    define m where "m = length t - length labels"
    have lt: "length labels < length t" using False sum l by simp
    have m: "length (filter ?out t) = m" using sum l by (simp add: m_def)
    have sv: "select (map ?out t) (map val t) = map val (filter ?out t)"
      by (rule select_map_filter)
    have st: "select (map ?out t) (map tie t) = map tie (filter ?out t)"
      by (rule select_map_filter)
    define new where "new = fresh_cells s 0 (map val (filter ?out t)) (map tie (filter ?out t))"
    have r: "remove_tie_param s labels = Inr (s\<lparr>tied_param := Some new\<rparr>)"
      using t False lt m
      by (simp add: remove_tie_param_def Let_def sv st broadcast_to_def rbind_def raise_in_def
          new_def flip: m_def)
    have np: "map val new = map val (filter ?out t)" "map tie new = map tie (filter ?out t)"
      unfolding new_def by (rule fresh_cells_props, simp)+
    show ?thesis
      using r np False by (intro exI [of _ "s\<lparr>tied_param := Some new\<rparr>"]) (simp add: tied_cells_def)
  qed
qed

lemma remove_unnecessary_ties_filter:
  assumes lb: "label_buf s = Some lb"
  shows "\<exists>s'. remove_unnecessary_ties s = Inr s' \<and>
           map tie (tied_cells s') =
             map tie (filter (\<lambda>t. 2 < length (filter (\<lambda>x. x = tie t) lb)) (tied_cells s)) \<and>
           map val (tied_cells s') =
             map val (filter (\<lambda>t. 2 < length (filter (\<lambda>x. x = tie t) lb)) (tied_cells s)) \<and>
           params s' =
             map (map (\<lambda>c. if tie c \<in> tie ` set (tied_cells s) \<and>
                               length (filter (\<lambda>x. x = tie c) lb) \<le> 2
                            then c\<lparr>tie := 0\<rparr> else c)) (params s)"
proof -
  define P where "P l \<longleftrightarrow> length (filter (\<lambda>x. x = l) lb) \<le> 2" for l
  define t where "t = tied_cells s"
  define labels where "labels = filter P (map tie t)"
  have keep: "(\<lambda>t. 2 < length (filter (\<lambda>x. x = tie t) lb)) = (\<lambda>t. \<not> P (tie t))"
    by (auto simp: P_def)
  have Pf: "(\<lambda>l. length (filter (\<lambda>x. x = l) lb) \<le> 2) = P"
    by (simp add: P_def fun_eq_iff)
  have ru: "remove_unnecessary_ties s =
        (if labels \<noteq> [] then
           rbind (remove_tie_param s labels)
             (\<lambda>s'. Inr (replace_labels s' (zip labels (replicate (length labels) 0))))
         else Inr s)" if "tied_param s = Some t" "t \<noteq> []"
    using that lb by (simp add: remove_unnecessary_ties_def Let_def Pf labels_def)
  have inl: "tie c \<in> set labels \<longleftrightarrow> tie c \<in> tie ` set t \<and> P (tie c)" for c :: cell
    by (auto simp: labels_def)
  have inl': "tie c \<in> set labels \<longleftrightarrow> P (tie c)" if "c \<in> set t" for c
    using that by (auto simp: labels_def)
  have fo: "filter (\<lambda>c. tie c \<notin> set labels) t = filter (\<lambda>c. \<not> P (tie c)) t"
    by (rule filter_cong) (simp_all add: inl')
  have fi: "filter (\<lambda>c. tie c \<in> set labels) t = filter (\<lambda>c. P (tie c)) t"
    by (rule filter_cong) (simp_all add: inl')
  have ll: "length labels = length (filter (\<lambda>c. tie c \<in> set labels) t)"
    unfolding fi by (simp add: labels_def filter_map comp_def)
  have goal: "\<exists>s'. remove_unnecessary_ties s = Inr s' \<and>
           map tie (tied_cells s') = map tie (filter (\<lambda>t. \<not> P (tie t)) t) \<and>
           map val (tied_cells s') = map val (filter (\<lambda>t. \<not> P (tie t)) t) \<and>
           params s' = map (map (\<lambda>c. if tie c \<in> tie ` set t \<and> P (tie c)
                                       then c\<lparr>tie := 0\<rparr> else c)) (params s)"
  proof (cases "labels = []")
    case True
    then have none: "\<And>c. c \<in> set t \<Longrightarrow> \<not> P (tie c)"
      unfolding labels_def filter_empty_conv by simp
    then have ft: "filter (\<lambda>t. \<not> P (tie t)) t = t" by simp
    have np: "\<not> (tie c \<in> tie ` set t \<and> P (tie c))" for c :: cell using none by auto
    have idm: "map (map (\<lambda>c::cell. if tie c \<in> tie ` set t \<and> P (tie c)
                                    then c\<lparr>tie := 0\<rparr> else c)) (params s) = params s"
      by (simp add: np)
    have r: "remove_unnecessary_ties s = Inr s"
    proof (cases "tied_param s")
      case None
      then show ?thesis by (simp add: remove_unnecessary_ties_def)
    next
      case (Some u)
      then have u: "tied_param s = Some t" by (simp add: t_def tied_cells_def)
      show ?thesis
      proof (cases "t = []")
        case True
        then show ?thesis using u by (simp add: remove_unnecessary_ties_def)
      next
        case False
        show ?thesis using ru [OF u False] \<open>labels = []\<close> by simp
      qed
    qed
    show ?thesis unfolding ft idm using r by (intro exI [of _ s]) (simp add: t_def)
  next
    case False
    then have tne: "t \<noteq> []" by (auto simp: labels_def)
    then have tp: "tied_param s = Some t"
      by (cases "tied_param s") (simp_all add: t_def tied_cells_def)
    from remove_tie_param_filter [OF tp ll]
    obtain s1 where r1: "remove_tie_param s labels = Inr s1" and p1: "params s1 = params s"
      and tt: "map tie (tied_cells s1) = map tie (filter (\<lambda>c. tie c \<notin> set labels) t)"
      and tv: "map val (tied_cells s1) = map val (filter (\<lambda>c. tie c \<notin> set labels) t)"
      by blast
    let ?h = "\<lambda>c. c\<lparr>tie := relabel (map (\<lambda>l. (l, 0)) labels) (tie c)\<rparr>"
    define s2 where "s2 = map_cells ?h s1"
    have r: "remove_unnecessary_ties s = Inr s2"
      using ru [OF tp tne] False r1
      by (simp add: rbind_def replace_labels_map_cells zip_replicate_const s2_def)
    have h: "?h c = (if tie c \<in> tie ` set t \<and> P (tie c) then c\<lparr>tie := 0\<rparr> else c)"
      for c :: cell
    proof (cases "tie c \<in> set labels")
      case True
      moreover from True have "tie c \<in> tie ` set t \<and> P (tie c)" using inl [of c] by blast
      ultimately show ?thesis by (simp add: relabel_to_const)
    next
      case False
      moreover from False have "\<not> (tie c \<in> tie ` set t \<and> P (tie c))" using inl [of c] by blast
      ultimately show ?thesis by (auto simp: relabel_to_const)
    qed
    have ps: "params s2 = map (map (\<lambda>c. if tie c \<in> tie ` set t \<and> P (tie c)
                                       then c\<lparr>tie := 0\<rparr> else c)) (params s)"
      unfolding s2_def params_map_cells p1 h ..
    have stay: "relabel (map (\<lambda>l. (l, 0)) labels) l = l" if "l \<in> set (map tie (tied_cells s1))" for l
    proof -
      from that obtain c where "c \<in> set t" "tie c \<notin> set labels" "l = tie c"
        unfolding tt by auto
      then show ?thesis unfolding relabel_to_const by simp
    qed
    have t2t: "map tie (tied_cells s2) = map tie (tied_cells s1)"
    proof -
      have "map tie (tied_cells s2) = map (relabel (map (\<lambda>l. (l, 0)) labels)) (map tie (tied_cells s1))"
        by (simp add: s2_def comp_def)
      also have "\<dots> = map tie (tied_cells s1)"
        by (rule map_idI) (rule stay)
      finally show ?thesis .
    qed
    have t2v: "map val (tied_cells s2) = map val (tied_cells s1)"
      by (simp add: s2_def comp_def)
    show ?thesis
      using r ps unfolding t2t [symmetric] t2v [symmetric] fo [symmetric] tt [symmetric] tv [symmetric]
      by (intro exI [of _ s2]) simp
  qed
  show ?thesis using goal unfolding keep t_def by (simp add: P_def)
qed

lemma rbind_InrD:
  assumes "rbind r f = Inr y"
  obtains x where "r = Inr x" "f x = Inr y"
  using assms by (cases r) (simp_all add: rbind_def)

lemma raise_in_InrD: "raise_in s r = Inr x \<Longrightarrow> r = Inr x"
  by (cases r) (simp_all add: raise_in_def)

lemma foldl_leaf_map:
  assumes step: "\<And>s k. step s k = set_leaf s k (map h (leaf s k))"
    and idem: "\<And>c. h (h c) = h c"
  shows "\<exists>ps. foldl step s ks = s\<lparr>params := ps\<rparr> \<and> length ps = length (params s) \<and>
           (\<forall>k<length ps. ps ! k = (if k \<in> set ks then map h (params s ! k) else params s ! k))"
proof (induction ks arbitrary: s)
  case Nil
  show ?case by (intro exI [of _ "params s"]) simp
next
  case (Cons k ks)
  define s1 where "s1 = step s k"
  have s1: "s1 = s\<lparr>params := (params s)[k := map h (leaf s k)]\<rparr>"
    unfolding s1_def step set_leaf_def ..
  from Cons.IH [of s1]
  obtain ps where f: "foldl step s1 ks = s1\<lparr>params := ps\<rparr>"
    and l: "length ps = length (params s1)"
    and n: "\<forall>j<length ps. ps ! j = (if j \<in> set ks then map h (params s1 ! j) else params s1 ! j)"
    by blast
  have l1: "length (params s1) = length (params s)" by (simp add: s1)
  have p1: "params s1 ! j = (if j = k then map h (params s ! k) else params s ! j)"
    if "j < length (params s)" for j
    using that by (simp add: s1 leaf_def nth_list_update)
  have "foldl step s (k # ks) = s\<lparr>params := ps\<rparr>"
    using f by (simp add: s1_def [symmetric]) (simp add: s1)
  moreover have "length ps = length (params s)" using l l1 by simp
  moreover have "\<forall>j<length ps. ps ! j =
      (if j \<in> set (k # ks) then map h (params s ! j) else params s ! j)"
  proof (intro allI impI)
    fix j assume j: "j < length ps"
    then have j': "j < length (params s)" using l l1 by simp
    have "ps ! j = (if j \<in> set ks then map h (params s1 ! j) else params s1 ! j)"
      using n j by blast
    then show "ps ! j = (if j \<in> set (k # ks) then map h (params s ! j) else params s ! j)"
      unfolding p1 [OF j'] by (auto simp: idem comp_def)
  qed
  ultimately show ?case by blast
qed

lemma leaf_params_update:
  "leaf (s\<lparr>params := ps\<rparr>) k = (if k < length ps then ps ! k else [])"
  by (simp add: leaf_def)

lemma foldl_leaf_map_leaf:
  assumes step: "\<And>s k. step s k = set_leaf s k (map h (leaf s k))"
    and idem: "\<And>c. h (h c) = h c"
  shows "leaf (foldl step s ks) k = (if k \<in> set ks then map h (leaf s k) else leaf s k)"
    and "tied_param (foldl step s ks) = tied_param s"
    and "PROPAGATE_VAL (foldl step s ks) = PROPAGATE_VAL s"
    and "length (params (foldl step s ks)) = length (params s)"
proof -
  from foldl_leaf_map [of step h s ks, OF step idem]
  obtain ps where f: "foldl step s ks = s\<lparr>params := ps\<rparr>"
    and l: "length ps = length (params s)"
    and n: "\<forall>k<length ps. ps ! k = (if k \<in> set ks then map h (params s ! k) else params s ! k)"
    by blast
  show "leaf (foldl step s ks) k = (if k \<in> set ks then map h (leaf s k) else leaf s k)"
  proof (cases "k < length ps")
    case True
    then show ?thesis using n l unfolding f leaf_params_update by (simp add: leaf_def)
  next
    case False
    then show ?thesis using l unfolding f leaf_params_update by (simp add: leaf_def)
  qed
  show "tied_param (foldl step s ks) = tied_param s" unfolding f by simp
  show "PROPAGATE_VAL (foldl step s ks) = PROPAGATE_VAL s" unfolding f by simp
  show "length (params (foldl step s ks)) = length (params s)" unfolding f using l by simp
qed

lemma set_l1_foldl:
  "leaf (foldl (set_l1 l) s ks) k =
     (if k \<in> set ks then map (\<lambda>c. c\<lparr>tie := l\<rparr>) (leaf s k) else leaf s k)"
  "tied_param (foldl (set_l1 l) s ks) = tied_param s"
  "PROPAGATE_VAL (foldl (set_l1 l) s ks) = PROPAGATE_VAL s"
  "length (params (foldl (set_l1 l) s ks)) = length (params s)"
proof -
  have st: "\<And>s k. set_l1 l s k = set_leaf s k (map (\<lambda>c. c\<lparr>tie := l\<rparr>) (leaf s k))"
    by (simp add: set_l1_def)
  have idm: "\<And>c :: cell. (c\<lparr>tie := l\<rparr>)\<lparr>tie := l\<rparr> = c\<lparr>tie := l\<rparr>" by simp
  note r = foldl_leaf_map_leaf [of "set_l1 l" "\<lambda>c. c\<lparr>tie := l\<rparr>", OF st idm]
  show "leaf (foldl (set_l1 l) s ks) k =
     (if k \<in> set ks then map (\<lambda>c. c\<lparr>tie := l\<rparr>) (leaf s k) else leaf s k)"
    by (rule r(1))
  show "tied_param (foldl (set_l1 l) s ks) = tied_param s" by (rule r(2))
  show "PROPAGATE_VAL (foldl (set_l1 l) s ks) = PROPAGATE_VAL s" by (rule r(3))
  show "length (params (foldl (set_l1 l) s ks)) = length (params s)" by (rule r(4))
qed

lemma set_val_foldl:
  "leaf (foldl (set_val v) s ks) k =
     (if k \<in> set ks then map (\<lambda>c. c\<lparr>val := v\<rparr>) (leaf s k) else leaf s k)"
  "tied_param (foldl (set_val v) s ks) = tied_param s"
  "PROPAGATE_VAL (foldl (set_val v) s ks) = PROPAGATE_VAL s"
  "length (params (foldl (set_val v) s ks)) = length (params s)"
proof -
  have st: "\<And>s k. set_val v s k = set_leaf s k (map (\<lambda>c. c\<lparr>val := v\<rparr>) (leaf s k))"
    by (simp add: set_val_def)
  have idm: "\<And>c :: cell. (c\<lparr>val := v\<rparr>)\<lparr>val := v\<rparr> = c\<lparr>val := v\<rparr>" by simp
  note r = foldl_leaf_map_leaf [of "set_val v" "\<lambda>c. c\<lparr>val := v\<rparr>", OF st idm]
  show "leaf (foldl (set_val v) s ks) k =
     (if k \<in> set ks then map (\<lambda>c. c\<lparr>val := v\<rparr>) (leaf s k) else leaf s k)"
    by (rule r(1))
  show "tied_param (foldl (set_val v) s ks) = tied_param s" by (rule r(2))
  show "PROPAGATE_VAL (foldl (set_val v) s ks) = PROPAGATE_VAL s" by (rule r(3))
  show "length (params (foldl (set_val v) s ks)) = length (params s)" by (rule r(4))
qed

lemma leaf_map_params:
  "params s' = map (map h) (params s) \<Longrightarrow> leaf s' k = map h (leaf s k)"
  by (simp add: leaf_def)

lemma expand_tie_param_frame:
  assumes "expand_tie_param s num = Inr ((ls, idx), s')"
  shows "params s' = params s" "PROPAGATE_VAL s' = PROPAGATE_VAL s" "length ls = num"
    "tied_param s' \<noteq> None"
proof -
  have "params s' = params s \<and> PROPAGATE_VAL s' = PROPAGATE_VAL s \<and> length ls = num \<and>
        tied_param s' \<noteq> None"
  proof (cases "tied_param s")
    case None
    then show ?thesis using assms by (auto simp: expand_tie_param_def Let_def)
  next
    case (Some t)
    then show ?thesis using assms
      by (cases "t = []") (auto simp: expand_tie_param_def Let_def)
  qed
  then show "params s' = params s" "PROPAGATE_VAL s' = PROPAGATE_VAL s" "length ls = num"
    "tied_param s' \<noteq> None" by blast+
qed

lemma remove_tie_param_frame:
  assumes "remove_tie_param s labels = Inr s'"
  shows "\<exists>tp. s' = s\<lparr>tied_param := tp\<rparr>"
proof (cases "tied_param s")
  case None
  then show ?thesis using assms by (simp add: remove_tie_param_def)
next
  case (Some t)
  show ?thesis
  proof (cases "length labels = length t")
    case True
    then show ?thesis using assms Some by (auto simp: remove_tie_param_def)
  next
    case False
    show ?thesis
    proof (cases "length t < length labels")
      case True
      then show ?thesis using assms Some False by (simp add: remove_tie_param_def)
    next
      case nl: False
      let ?m = "length t - length labels" and ?idx = "map (\<lambda>c. tie c \<notin> set labels) t"
      have e: "rbind (raise_in s (broadcast_to ?m (select ?idx (map val t))))
                 (\<lambda>new_buf. rbind (raise_in s (broadcast_to ?m (select ?idx (map tie t))))
                    (\<lambda>new_tie. Inr (s\<lparr>tied_param := Some (fresh_cells s 0 new_buf new_tie)\<rparr>))) = Inr s'"
        using assms Some False nl by (simp add: remove_tie_param_def Let_def)
      from e obtain nb where "rbind (raise_in s (broadcast_to ?m (select ?idx (map tie t))))
                    (\<lambda>new_tie. Inr (s\<lparr>tied_param := Some (fresh_cells s 0 nb new_tie)\<rparr>)) = Inr s'"
        by (rule rbind_InrD)
      then obtain nt where "Inr (s\<lparr>tied_param := Some (fresh_cells s 0 nb nt)\<rparr>) = (Inr s' :: tstate result)"
        by (rule rbind_InrD)
      then show ?thesis by auto
    qed
  qed
qed

lemma merge_tie_labels_frame:
  assumes "merge_tie_labels s labels = Inr s'"
  shows "\<exists>h. (\<forall>c. val (h c) = val c) \<and> params s' = map (map h) (params s) \<and>
           PROPAGATE_VAL s' = PROPAGATE_VAL s"
proof (cases "length labels < 2")
  case True
  then have "s' = s" using assms by (simp add: merge_tie_labels_def)
  then show ?thesis by (intro exI [of _ "\<lambda>c. c"]) simp
next
  case False
  then have "rbind (remove_tie_param s (tl labels))
               (\<lambda>s'. Inr (replace_labels s' (map (\<lambda>l. (l, hd labels)) (tl labels)))) = Inr s'"
    using assms by (simp add: merge_tie_labels_def)
  then obtain s1 where r: "remove_tie_param s (tl labels) = Inr s1"
    and e: "Inr (replace_labels s1 (map (\<lambda>l. (l, hd labels)) (tl labels))) = (Inr s' :: tstate result)"
    by (rule rbind_InrD)
  from remove_tie_param_frame [OF r] obtain tp where s1: "s1 = s\<lparr>tied_param := tp\<rparr>" by blast
  let ?h = "\<lambda>c. c\<lparr>tie := relabel (map (\<lambda>l. (l, hd labels)) (tl labels)) (tie c)\<rparr>"
  have "s' = map_cells ?h s1" using e by (simp add: replace_labels_map_cells)
  then show ?thesis unfolding s1 by (intro exI [of _ ?h]) (simp add: map_cells_def)
qed

lemma update_label_buf_post:
  assumes "update_label_buf s = Inr s'"
  shows "fresh s'" "params s' = params s" "tied_param s' = tied_param s"
    "PROPAGATE_VAL s' = PROPAGATE_VAL s" "\<forall>t\<in>set (tied_cells s). 0 < tie t"
proof -
  have "fresh s' \<and> params s' = params s \<and> tied_param s' = tied_param s \<and>
        PROPAGATE_VAL s' = PROPAGATE_VAL s \<and> (\<forall>t\<in>set (tied_cells s). 0 < tie t)"
  proof (cases "tied_param s")
    case None
    then show ?thesis using assms
      by (auto simp: update_label_buf_def fresh_def tied_cells_def)
  next
    case (Some t)
    let ?s' = "s\<lparr>label_buf := Some (map tie (flat_cells s)),
                  buf_idx := Some [tie_start s..<tie_start s + length t],
                  untie_mask := Some (map (\<lambda>i. map tie (flat_cells s) ! i = 0 \<or>
                     i \<in> set [tie_start s..<tie_start s + length t])
                     [0..<length (map tie (flat_cells s))])\<rparr>"
    have a: "\<forall>c\<in>set t. 0 < tie c" and e: "s' = ?s'"
      using assms Some by (simp_all add: update_label_buf_def Let_def split: if_splits)
    have "flat_cells ?s' = flat_cells s" "tied_cells ?s' = tied_cells s" "tie_start ?s' = tie_start s"
      by (simp_all add: flat_cells_def tied_cells_def tie_start_def)
    then have "fresh ?s'" using Some by (simp add: fresh_def tied_cells_def)
    then show ?thesis using a Some unfolding e by (simp add: tied_cells_def)
  qed
  then show "fresh s'" "params s' = params s" "tied_param s' = tied_param s"
    "PROPAGATE_VAL s' = PROPAGATE_VAL s" "\<forall>t\<in>set (tied_cells s). 0 < tie t" by blast+
qed

lemma set_tied_where_post:
  assumes "set_tied_where s L v = Inr s'"
  shows "s' = s\<lparr>tied_param :=
           map_option (map (\<lambda>c. if tie c = L then c\<lparr>val := v\<rparr> else c)) (tied_param s)\<rparr>"
    and "tied_param s \<noteq> None"
  using assms by (cases "tied_param s"; simp add: set_tied_where_def)+

subsection \<open>The body of \<open>tie_together\<close>\<close>

lemma sync_val_group_post:
  assumes "sync_val_group s plist = Inr (v, s1)"
  shows "s1 = foldl (set_val v) s (leaves_of plist)"
    and "plist \<noteq> []"
    and "v = mean (concat (map (\<lambda>p. concat (map (\<lambda>k. map val (leaf s k)) (traverse_param p)))
                               plist))"
  using assms by (auto simp: sync_val_group_def Let_def split: if_splits)

lemma flat_cells_slot_map:
  assumes "\<forall>c. tie (h c) = tie c"
  shows "map tie (flat_cells (s\<lparr>tied_param := map_option (map h) (tied_param s)\<rparr>)) =
         map tie (flat_cells s)"
    and "tie_start (s\<lparr>tied_param := map_option (map h) (tied_param s)\<rparr>) = tie_start s"
    and "tied_cells (s\<lparr>tied_param := map_option (map h) (tied_param s)\<rparr>) = map h (tied_cells s)"
proof -
  let ?s = "s\<lparr>tied_param := map_option (map h) (tied_param s)\<rparr>"
  show t: "tied_cells ?s = map h (tied_cells s)"
    by (cases "tied_param s") (simp_all add: tied_cells_def)
  show ts: "tie_start ?s = tie_start s" by (simp add: tie_start_def)
  have "map tie (map h (tied_cells s)) = map tie (tied_cells s)"
    using assms by simp
  then show "map tie (flat_cells ?s) = map tie (flat_cells s)"
    unfolding flat_cells_def t ts by simp
qed

lemma fresh_slot_map:
  assumes f: "fresh s" and h: "\<forall>c. tie (h c) = tie c"
  shows "fresh (s\<lparr>tied_param := map_option (map h) (tied_param s)\<rparr>)"
proof -
  let ?s = "s\<lparr>tied_param := map_option (map h) (tied_param s)\<rparr>"
  note fc = flat_cells_slot_map [OF h, of s]
  show ?thesis
  proof (cases "tied_cells s = []")
    case True
    then show ?thesis unfolding fresh_def fc(3) by simp
  next
    case False
    then have "label_buf s = Some (map tie (flat_cells s))"
      and "buf_idx s = Some [tie_start s..<tie_start s + length (tied_cells s)]"
      using f unfolding fresh_def by blast+
    then show ?thesis unfolding fresh_def fc by simp
  qed
qed

lemma set_labels_one: "set_labels s plist [l] = foldl (set_l1 l) s (leaves_of plist)"
  by (simp add: set_labels_def)

lemma tie_branch_post:
  assumes b: "(if hd labels = 0 \<and> length labels = 1 then tie_together_untied s1 plist
            else tie_together_tied s1 plist labels) = Inr (tie_labels, s2)"
  shows "PROPAGATE_VAL s2 = PROPAGATE_VAL s1"
    and "\<exists>h. (\<forall>c. val (h c) = val c) \<and>
           (\<forall>k. leaf s2 k = (if k \<in> set (leaves_of plist)
                             then map (\<lambda>c. c\<lparr>tie := hd tie_labels\<rparr>) (map h (leaf s1 k))
                             else map h (leaf s1 k)))"
proof -
  have "PROPAGATE_VAL s2 = PROPAGATE_VAL s1 \<and>
        (\<exists>h. (\<forall>c. val (h c) = val c) \<and>
           (\<forall>k. leaf s2 k = (if k \<in> set (leaves_of plist)
                             then map (\<lambda>c. c\<lparr>tie := hd tie_labels\<rparr>) (map h (leaf s1 k))
                             else map h (leaf s1 k))))"
  proof (cases "hd labels = 0 \<and> length labels = 1")
    case True
    then have "tie_together_untied s1 plist = Inr (tie_labels, s2)" using b by simp
    then obtain x where e: "expand_tie_param s1 1 = Inr x"
      and r: "(\<lambda>((tie_labels, idxlist), s2).
                 Inr (tie_labels, set_labels s2 plist tie_labels)) x =
               (Inr (tie_labels, s2) :: (nat list \<times> tstate) result)"
      unfolding tie_together_untied_def by (rule rbind_InrD)
    obtain ls idx s' where x: "x = ((ls, idx), s')" by (metis surj_pair)
    from r x have ls: "ls = tie_labels" and s2: "s2 = set_labels s' plist tie_labels" by auto
    from e x ls have e': "expand_tie_param s1 1 = Inr ((tie_labels, idx), s')" by simp
    note fr = expand_tie_param_frame [OF e']
    from fr(3) obtain l where tl: "tie_labels = [l]" by (cases tie_labels) simp_all
    have s2': "s2 = foldl (set_l1 l) s' (leaves_of plist)"
      unfolding s2 tl by (rule set_labels_one)
    have lf: "leaf s' k = leaf s1 k" for k using fr(1) by (simp add: leaf_def)
    have "leaf s2 k = (if k \<in> set (leaves_of plist)
                       then map (\<lambda>c. c\<lparr>tie := hd tie_labels\<rparr>) (map (\<lambda>c. c) (leaf s1 k))
                       else map (\<lambda>c. c) (leaf s1 k))" for k
      unfolding s2' set_l1_foldl(1) lf tl by simp
    moreover have "PROPAGATE_VAL s2 = PROPAGATE_VAL s1"
      unfolding s2' set_l1_foldl(3) by (rule fr(2))
    ultimately show ?thesis by (intro conjI exI [of _ "\<lambda>c. c"]) simp_all
  next
    case False
    define tls where "tls = filter (\<lambda>l. 0 < l) labels"
    from False have "tie_together_tied s1 plist labels = Inr (tie_labels, s2)"
      using b by (auto split: if_splits)
    then obtain s' where m: "(if 1 < length tls then merge_tie_labels s1 tls else Inr s1) = Inr s'"
      and r: "(let s3 = set_labels s' plist [hd tls]
               in if tied_param s3 = None then Inl (AttributeError, s3)
                  else Inr (tls, s3)) = Inr (tie_labels, s2)"
      unfolding tie_together_tied_def Let_def tls_def [symmetric] by (rule rbind_InrD)
    from r have tl: "tls = tie_labels" and s2: "s2 = set_labels s' plist [hd tls]"
      by (auto simp: Let_def split: if_splits)
    have s2': "s2 = foldl (set_l1 (hd tie_labels)) s' (leaves_of plist)"
      unfolding s2 tl by (rule set_labels_one)
    have "\<exists>h. (\<forall>c. val (h c) = val c) \<and> params s' = map (map h) (params s1) \<and>
           PROPAGATE_VAL s' = PROPAGATE_VAL s1"
    proof (cases "1 < length tls")
      case True
      then have "merge_tie_labels s1 tls = Inr s'" using m by simp
      then show ?thesis by (rule merge_tie_labels_frame)
    next
      case False
      then have "s' = s1" using m by simp
      then show ?thesis by (intro exI [of _ "\<lambda>c. c"]) simp
    qed
    then obtain h where hv: "\<forall>c. val (h c) = val c"
      and hp: "params s' = map (map h) (params s1)"
      and pv: "PROPAGATE_VAL s' = PROPAGATE_VAL s1" by blast
    have lf: "leaf s' k = map h (leaf s1 k)" for k using hp by (rule leaf_map_params)
    have "leaf s2 k = (if k \<in> set (leaves_of plist)
                       then map (\<lambda>c. c\<lparr>tie := hd tie_labels\<rparr>) (map h (leaf s1 k))
                       else map h (leaf s1 k))" for k
      unfolding s2' set_l1_foldl(1) lf by simp
    moreover have "PROPAGATE_VAL s2 = PROPAGATE_VAL s1"
      unfolding s2' set_l1_foldl(3) by (rule pv)
    ultimately show ?thesis using hv by (intro conjI exI [of _ h]) simp_all
  qed
  then show "PROPAGATE_VAL s2 = PROPAGATE_VAL s1"
    and "\<exists>h. (\<forall>c. val (h c) = val c) \<and>
           (\<forall>k. leaf s2 k = (if k \<in> set (leaves_of plist)
                             then map (\<lambda>c. c\<lparr>tie := hd tie_labels\<rparr>) (map h (leaf s1 k))
                             else map h (leaf s1 k)))" by blast+
qed

lemma tie_together_body_InrD:
  assumes "tie_together_body s plist = Inr s4"
  obtains labels v s1 tie_labels s2 s5 where
    "get_labels s plist = Inr labels" "labels \<noteq> []" "sync_val_group s plist = Inr (v, s1)"
    "(if hd labels = 0 \<and> length labels = 1 then tie_together_untied s1 plist
      else tie_together_tied s1 plist labels) = Inr (tie_labels, s2)"
    "update_label_buf s2 = Inr s5" "set_tied_where s5 (hd tie_labels) v = Inr s4"
proof -
  from assms obtain labels where gl: "raise_in s (get_labels s plist) = Inr labels"
    and r1: "rbind (sync_val_group s plist) (\<lambda>(v, s1).
       if labels = [] then Inl (IndexError, s1)
       else
         rbind
           (if hd labels = 0 \<and> length labels = 1 then tie_together_untied s1 plist
            else tie_together_tied s1 plist labels)
           (\<lambda>(tie_labels, s4).
              rbind (update_label_buf s4) (\<lambda>s5. set_tied_where s5 (hd tie_labels) v))) = Inr s4"
    unfolding tie_together_body_def by (rule rbind_InrD)
  from r1 obtain x where sv: "sync_val_group s plist = Inr x"
    and r2: "(case x of (v, s1) \<Rightarrow>
       if labels = [] then Inl (IndexError, s1)
       else
         rbind
           (if hd labels = 0 \<and> length labels = 1 then tie_together_untied s1 plist
            else tie_together_tied s1 plist labels)
           (\<lambda>(tie_labels, s4).
              rbind (update_label_buf s4) (\<lambda>s5. set_tied_where s5 (hd tie_labels) v))) = Inr s4"
    by (rule rbind_InrD)
  obtain v s1 where x: "x = (v, s1)" by (cases x)
  have ne: "labels \<noteq> []" using r2 x by (auto split: if_splits)
  with r2 x have r3: "rbind
           (if hd labels = 0 \<and> length labels = 1 then tie_together_untied s1 plist
            else tie_together_tied s1 plist labels)
           (\<lambda>(tie_labels, s4).
              rbind (update_label_buf s4) (\<lambda>s5. set_tied_where s5 (hd tie_labels) v)) = Inr s4"
    by simp
  then obtain y where br: "(if hd labels = 0 \<and> length labels = 1 then tie_together_untied s1 plist
            else tie_together_tied s1 plist labels) = Inr y"
    and r4: "(case y of (tie_labels, s4) \<Rightarrow>
              rbind (update_label_buf s4) (\<lambda>s5. set_tied_where s5 (hd tie_labels) v)) = Inr s4"
    by (rule rbind_InrD)
  obtain tie_labels s2 where y: "y = (tie_labels, s2)" by (cases y)
  from r4 y have "rbind (update_label_buf s2) (\<lambda>s5. set_tied_where s5 (hd tie_labels) v) = Inr s4"
    by simp
  then obtain s5 where u: "update_label_buf s2 = Inr s5"
    and st: "set_tied_where s5 (hd tie_labels) v = Inr s4" by (rule rbind_InrD)
  show thesis
    using raise_in_InrD [OF gl] ne sv [unfolded x] br [unfolded y] u st by (rule that)
qed

lemma tie_together_body_post:
  assumes b: "tie_together_body s plist = Inr s4"
  shows "fresh s4" "PROPAGATE_VAL s4 = PROPAGATE_VAL s"
    and "\<exists>L v. (\<forall>k\<in>set (leaves_of plist). \<forall>x\<in>set (leaf s4 k). tie x = L \<and> val x = v) \<and>
               (\<forall>t\<in>set (tied_cells s4). tie t = L \<longrightarrow> val t = v)"
proof -
  from b obtain labels v s1 tie_labels s2 s5 where
    sv: "sync_val_group s plist = Inr (v, s1)"
    and br: "(if hd labels = 0 \<and> length labels = 1 then tie_together_untied s1 plist
      else tie_together_tied s1 plist labels) = Inr (tie_labels, s2)"
    and u: "update_label_buf s2 = Inr s5" and st: "set_tied_where s5 (hd tie_labels) v = Inr s4"
    by (rule tie_together_body_InrD)
  define L where "L = hd tie_labels"
  define h' :: "cell \<Rightarrow> cell" where "h' = (\<lambda>c. if tie c = L then c\<lparr>val := v\<rparr> else c)"
  have s1: "s1 = foldl (set_val v) s (leaves_of plist)" using sv by (rule sync_val_group_post)
  note up = update_label_buf_post [OF u]
  have s4: "s4 = s5\<lparr>tied_param := map_option (map h') (tied_param s5)\<rparr>"
    using set_tied_where_post(1) [OF st] unfolding L_def h'_def .
  have ht: "\<forall>c. tie (h' c) = tie c" by (simp add: h'_def)
  show "fresh s4" unfolding s4 using up(1) ht by (rule fresh_slot_map)
  have "PROPAGATE_VAL s4 = PROPAGATE_VAL s5" unfolding s4 by simp
  also have "\<dots> = PROPAGATE_VAL s2" by (rule up(4))
  also have "\<dots> = PROPAGATE_VAL s1" using br by (rule tie_branch_post(1))
  also have "\<dots> = PROPAGATE_VAL s" unfolding s1 by (rule set_val_foldl(3))
  finally show "PROPAGATE_VAL s4 = PROPAGATE_VAL s" .
  from tie_branch_post(2) [OF br] obtain h where hv: "\<forall>c. val (h c) = val c"
    and lf: "\<forall>k. leaf s2 k = (if k \<in> set (leaves_of plist)
                             then map (\<lambda>c. c\<lparr>tie := hd tie_labels\<rparr>) (map h (leaf s1 k))
                             else map h (leaf s1 k))" by blast
  have l4: "leaf s4 k = leaf s2 k" for k unfolding s4 using up(2) by (simp add: leaf_def)
  have a: "tie x = L \<and> val x = v" if k: "k \<in> set (leaves_of plist)" and x: "x \<in> set (leaf s4 k)"
    for k x
  proof -
    have "leaf s1 k = map (\<lambda>c. c\<lparr>val := v\<rparr>) (leaf s k)"
      unfolding s1 using k by (simp add: set_val_foldl(1))
    moreover have "leaf s2 k = map (\<lambda>c. c\<lparr>tie := L\<rparr>) (map h (leaf s1 k))"
      unfolding L_def using lf k by simp
    ultimately
    have "leaf s4 k = map (\<lambda>c. c\<lparr>tie := L\<rparr>) (map h (map (\<lambda>c. c\<lparr>val := v\<rparr>) (leaf s k)))"
      unfolding l4 by simp
    with x obtain c where "x = (h (c\<lparr>val := v\<rparr>))\<lparr>tie := L\<rparr>" by auto
    then show ?thesis using hv by simp
  qed
  have t4: "tied_cells s4 = map h' (tied_cells s5)"
    unfolding s4 by (rule flat_cells_slot_map(3) [OF ht])
  have c: "val t = v" if t: "t \<in> set (tied_cells s4)" and l: "tie t = L" for t
  proof -
    from t obtain c where "t = h' c" unfolding t4 by auto
    then show ?thesis using l by (simp add: h'_def split: if_splits)
  qed
  show "\<exists>L v. (\<forall>k\<in>set (leaves_of plist). \<forall>x\<in>set (leaf s4 k). tie x = L \<and> val x = v) \<and>
               (\<forall>t\<in>set (tied_cells s4). tie t = L \<longrightarrow> val t = v)"
    using a c by (intro exI [of _ L] exI [of _ v]) blast
qed

lemma completedD: "completed r \<Longrightarrow> \<exists>s'. r = Some (Inr s')"
  by (auto simp: completed_def split: option.splits sum.splits)

lemma public_op_InrD:
  assumes "Option.bind (update_model s False) (\<lambda>r. resume (rbind r body)) = Some (Inr s')"
  obtains s4 where "body (s\<lparr>update_on := False\<rparr>) = Inr s4" "s' = s4\<lparr>update_on := True\<rparr>"
proof -
  from assms have r: "resume (body (s\<lparr>update_on := False\<rparr>)) = Some (Inr s')"
    by (simp add: update_model_def rbind_def)
  show thesis
  proof (cases "body (s\<lparr>update_on := False\<rparr>)")
    case (Inl e)
    then show ?thesis using r by (simp add: resume_def)
  next
    case (Inr s4)
    then show ?thesis using r that by (simp add: resume_def update_model_resume)
  qed
qed

lemma public_op_returns:
  "Option.bind (update_model s False) (\<lambda>r. resume (rbind r body)) =
     Some (case body (s\<lparr>update_on := False\<rparr>) of
             Inl e \<Rightarrow> Inl e
           | Inr s4 \<Rightarrow> Inr (s4\<lparr>update_on := True\<rparr>))"
  by (simp add: update_model_def [of s False] rbind_def resume_def update_model_resume
      split: sum.splits)

subsection \<open>The body of \<open>untie\<close>\<close>

lemma loosens_refl: "loosens c c"
  by (simp add: loosens_def)

lemma loosens_trans: "loosens a b \<Longrightarrow> loosens b c \<Longrightarrow> loosens a c"
  by (auto simp: loosens_def)

lemma loosened_refl: "loosened s s"
  unfolding loosened_def
  by (auto intro!: list_all2_refl loosens_refl)

lemma loosened_same:
  assumes "params s' = params s" "tied_param s' = tied_param s"
  shows "loosened s s'"
proof -
  have "tied_cells s' = tied_cells s" using assms(2) by (simp add: tied_cells_def)
  then show ?thesis unfolding loosened_def assms(1)
    by (auto intro!: list_all2_refl loosens_refl)
qed

lemma loosened_trans [trans]:
  assumes a: "loosened s s'" and b: "loosened s' s''"
  shows "loosened s s''"
proof -
  have "list_all2 (list_all2 loosens) (params s) (params s'')"
  proof (rule list_all2_trans)
    show "list_all2 (list_all2 loosens) (params s) (params s')" using a unfolding loosened_def ..
    show "list_all2 (list_all2 loosens) (params s') (params s'')" using b unfolding loosened_def ..
    show "list_all2 loosens x z" if "list_all2 loosens x y" "list_all2 loosens y z" for x y z
      using _ that by (rule list_all2_trans) (rule loosens_trans)
  qed
  moreover have "\<exists>u\<in>set (tied_cells s). tie t = tie u \<and> val t = val u"
    if "t \<in> set (tied_cells s'')" for t
  proof -
    from that b obtain u where "u \<in> set (tied_cells s')" "tie t = tie u \<and> val t = val u"
      unfolding loosened_def by blast
    moreover from this(1) a obtain w where "w \<in> set (tied_cells s)" "tie u = tie w \<and> val u = val w"
      unfolding loosened_def by blast
    ultimately show ?thesis by auto
  qed
  ultimately show ?thesis unfolding loosened_def by blast
qed

lemma loosened_vals:
  assumes "loosened s s'"
  shows "map (map val) (params s') = map (map val) (params s)"
proof -
  have l: "list_all2 (list_all2 loosens) (params s) (params s')"
    using assms unfolding loosened_def ..
  have "map val q = map val p" if "list_all2 loosens p q" for p q
    using that by (induction rule: list_all2_induct) (simp_all add: loosens_def)
  with l show ?thesis by (induction rule: list_all2_induct) simp_all
qed

lemma loosened_consistent:
  assumes l: "loosened s s'" and c: "consistent s" and pos: "\<forall>t\<in>set (tied_cells s'). 0 < tie t"
  shows "consistent s'"
  unfolding consistent_def
proof (intro ballI impI)
  fix x t
  assume x: "x \<in> set (flat_cells s')" and t: "t \<in> set (tied_cells s')" and e: "tie x = tie t"
  from t l obtain u where u: "u \<in> set (tied_cells s)" and tu: "tie t = tie u" "val t = val u"
    unfolding loosened_def by blast
  have p: "0 < tie x" using pos t e by simp
  have "\<exists>y\<in>set (flat_cells s). tie y = tie x \<and> val y = val x"
  proof (cases "x \<in> set (tied_cells s')")
    case True
    with l obtain w where "w \<in> set (tied_cells s)" "tie x = tie w \<and> val x = val w"
      unfolding loosened_def by blast
    then show ?thesis unfolding set_flat_cells by auto
  next
    case False
    with x have "x \<in> set (concat (params s'))" unfolding set_flat_cells by simp
    then obtain q where q: "q \<in> set (params s')" "x \<in> set q" by auto
    have pl: "list_all2 (list_all2 loosens) (params s) (params s')"
      using l unfolding loosened_def ..
    from q(1) obtain k where k: "k < length (params s')" "params s' ! k = q"
      unfolding in_set_conv_nth by blast
    from q(2) obtain i where i: "i < length q" "q ! i = x" unfolding in_set_conv_nth by blast
    have lk: "length (params s) = length (params s')" using pl by (rule list_all2_lengthD)
    have r: "list_all2 loosens (params s ! k) q"
      using list_all2_nthD2 [OF pl k(1)] k(2) by simp
    have li: "length (params s ! k) = length q" using r by (rule list_all2_lengthD)
    have lo: "loosens (params s ! k ! i) x" using list_all2_nthD2 [OF r i(1)] i(2) by simp
    have "params s ! k ! i \<in> set (concat (params s))"
      using k(1) lk i(1) li by (auto intro!: bexI [of _ "params s ! k"])
    moreover have "tie (params s ! k ! i) = tie x \<and> val (params s ! k ! i) = val x"
      using lo p by (auto simp: loosens_def)
    ultimately show ?thesis unfolding set_flat_cells by blast
  qed
  then obtain y where y: "y \<in> set (flat_cells s)" "tie y = tie x" "val y = val x" by blast
  have "tie y = tie u" using y(2) e tu(1) by simp
  with c y(1) u have "val y = val u" unfolding consistent_def by blast
  then show "val x = val t" using y(3) tu(2) by simp
qed

lemma params_nth_leaf: "k < length (params s) \<Longrightarrow> params s ! k = leaf s k"
  by (simp add: leaf_def)

lemma set_labels_zero_loosened: "loosened s (set_labels s plist [0])"
proof -
  let ?s' = "foldl (set_l1 0) s (leaves_of plist)"
  have len: "length (params s) = length (params ?s')" by (simp add: set_l1_foldl(4))
  have "list_all2 (list_all2 loosens) (params s) (params ?s')"
  proof (rule list_all2_all_nthI [OF len])
    fix k assume k: "k < length (params s)"
    then have k': "k < length (params ?s')" using len by simp
    have "list_all2 loosens (leaf s k) (leaf ?s' k)"
      unfolding set_l1_foldl(1)
      by (simp add: list_all2_map2 loosens_def list_all2_refl)
    then show "list_all2 loosens (params s ! k) (params ?s' ! k)"
      unfolding params_nth_leaf [OF k] params_nth_leaf [OF k'] .
  qed
  moreover have "tied_cells ?s' = tied_cells s"
    by (simp add: tied_cells_def set_l1_foldl(2))
  ultimately have "loosened s ?s'" unfolding loosened_def by auto
  then show ?thesis unfolding set_labels_one .
qed

lemma remove_unnecessary_ties_loosened:
  assumes r: "remove_unnecessary_ties s = Inr s'"
  shows "loosened s s'"
proof -
  consider "tied_param s = None \<or> tied_param s = Some []"
    | t lb where "tied_param s = Some t" "t \<noteq> []" "label_buf s = Some lb"
    | t where "tied_param s = Some t" "t \<noteq> []" "label_buf s = None"
    by (cases "tied_param s"; cases "label_buf s") auto
  then show ?thesis
  proof cases
    case 1
    then have "s' = s" using r by (auto simp: remove_unnecessary_ties_def)
    then show ?thesis by (simp add: loosened_refl)
  next
    case 3
    then show ?thesis using r by (simp add: remove_unnecessary_ties_def)
  next
    case 2
    define K :: "cell \<Rightarrow> bool" where "K = (\<lambda>t. 2 < length (filter (\<lambda>x. x = tie t) lb))"
    define h :: "cell \<Rightarrow> cell" where "h = (\<lambda>c. if tie c \<in> tie ` set (tied_cells s) \<and>
                               length (filter (\<lambda>x. x = tie c) lb) \<le> 2
                            then c\<lparr>tie := 0\<rparr> else c)"
    from remove_unnecessary_ties_filter [OF 2(3)] r
    have tt: "map tie (tied_cells s') = map tie (filter K (tied_cells s))"
      and tv: "map val (tied_cells s') = map val (filter K (tied_cells s))"
      and ps: "params s' = map (map h) (params s)"
      unfolding K_def h_def by auto
    have "list_all2 (list_all2 loosens) (params s) (params s')"
      unfolding ps by (simp add: list_all2_map2 list_all2_refl loosens_def h_def)
    moreover have "\<exists>u\<in>set (tied_cells s). tie t = tie u \<and> val t = val u"
      if "t \<in> set (tied_cells s')" for t
    proof -
      from that obtain i where i: "i < length (tied_cells s')" "tied_cells s' ! i = t"
        unfolding in_set_conv_nth by blast
      have l: "length (filter K (tied_cells s)) = length (tied_cells s')"
        using tt by (rule map_eq_imp_length_eq [symmetric])
      let ?u = "filter K (tied_cells s) ! i"
      have "i < length (filter K (tied_cells s))" using i(1) l by simp
      then have "?u \<in> set (filter K (tied_cells s))" by (rule nth_mem)
      then have "?u \<in> set (tied_cells s)" by simp
      moreover have "tie t = tie ?u" using map_eq_nthD [OF tt i(1)] i(2) by simp
      moreover have "val t = val ?u" using map_eq_nthD [OF tv i(1)] i(2) by simp
      ultimately show ?thesis by blast
    qed
    ultimately show ?thesis unfolding loosened_def by blast
  qed
qed

lemma untie_body_post:
  assumes b: "untie_body s plist = Inr s3"
  shows "loosened s s3" "fresh s3" "\<forall>t\<in>set (tied_cells s3). 0 < tie t"
proof -
  from b obtain s1 where u1: "update_label_buf (set_labels s plist [0]) = Inr s1"
    and r1: "rbind (remove_unnecessary_ties s1) (\<lambda>s2. update_label_buf s2) = Inr s3"
    unfolding untie_body_def by (rule rbind_InrD)
  from r1 obtain s2 where ru: "remove_unnecessary_ties s1 = Inr s2"
    and u2: "update_label_buf s2 = Inr s3" by (rule rbind_InrD)
  note p1 = update_label_buf_post [OF u1]
  note p2 = update_label_buf_post [OF u2]
  have "loosened s (set_labels s plist [0])" by (rule set_labels_zero_loosened)
  also have "loosened (set_labels s plist [0]) s1" using p1(2,3) by (rule loosened_same)
  also have "loosened s1 s2" using ru by (rule remove_unnecessary_ties_loosened)
  also have "loosened s2 s3" using p2(2,3) by (rule loosened_same)
  finally show "loosened s s3" .
  show "fresh s3" by (rule p2(1))
  have "tied_cells s3 = tied_cells s2" using p2(3) by (simp add: tied_cells_def)
  then show "\<forall>t\<in>set (tied_cells s3). 0 < tie t" using p2(5) by simp
qed

lemma loosened_frame:
  assumes "loosened s s'"
  shows "map (map val) (params s') = map (map val) (params s) \<and>
         (\<forall>t\<in>set (tied_cells s'). \<exists>u\<in>set (tied_cells s). tie t = tie u \<and> val t = val u)"
  using loosened_vals [OF assms] assms unfolding loosened_def by blast

lemma update_label_buf_outcome:
  "params (outcome_state (update_label_buf s)) = params s"
  "tied_param (outcome_state (update_label_buf s)) = tied_param s"
  by (cases "tied_param s"; simp add: update_label_buf_def outcome_state_def Let_def)+

lemma remove_tie_param_raises:
  assumes "remove_tie_param s labels = Inl (e, s')"
  shows "s' = s"
  using assms
  by (auto simp: remove_tie_param_def rbind_def raise_in_def Let_def
      split: option.splits if_splits sum.splits)

lemma remove_unnecessary_ties_raises:
  assumes "remove_unnecessary_ties s = Inl (e, s')"
  shows "s' = s"
  using assms remove_tie_param_raises
  by (auto simp: remove_unnecessary_ties_def rbind_def Let_def
      split: option.splits if_splits sum.splits)

lemma remove_unnecessary_ties_outcome:
  "loosened s (outcome_state (remove_unnecessary_ties s))"
proof (cases "remove_unnecessary_ties s")
  case (Inl x)
  obtain e s' where x: "x = (e, s')" by (cases x)
  have "s' = s" using Inl unfolding x by (rule remove_unnecessary_ties_raises)
  then show ?thesis using Inl x by (simp add: outcome_state_def loosened_refl)
next
  case (Inr s')
  then have "loosened s s'" by (rule remove_unnecessary_ties_loosened)
  then show ?thesis using Inr by (simp add: outcome_state_def)
qed

lemma untie_body_outcome: "loosened s (outcome_state (untie_body s plist))"
proof -
  let ?sA = "set_labels s plist [0]"
  have a: "loosened s ?sA" by (rule set_labels_zero_loosened)
  have u: "loosened x (outcome_state (update_label_buf x))" for x
    by (rule loosened_same) (rule update_label_buf_outcome)+
  show ?thesis
  proof (cases "update_label_buf ?sA")
    case (Inl x)
    then have "outcome_state (untie_body s plist) = outcome_state (update_label_buf ?sA)"
      by (simp add: untie_body_def rbind_def)
    then show ?thesis using loosened_trans [OF a u [of ?sA]] by simp
  next
    case s1: (Inr s1)
    then have l1: "loosened s s1" using loosened_trans [OF a u [of ?sA]]
      by (simp add: outcome_state_def)
    show ?thesis
    proof (cases "remove_unnecessary_ties s1")
      case (Inl x)
      then have "outcome_state (untie_body s plist) = outcome_state (remove_unnecessary_ties s1)"
        using s1 by (simp add: untie_body_def rbind_def)
      then show ?thesis
        using loosened_trans [OF l1 remove_unnecessary_ties_outcome [of s1]] by simp
    next
      case s2: (Inr s2)
      then have l2: "loosened s s2"
        using loosened_trans [OF l1 remove_unnecessary_ties_outcome [of s1]]
        by (simp add: outcome_state_def)
      have "outcome_state (untie_body s plist) = outcome_state (update_label_buf s2)"
        using s1 s2 by (simp add: untie_body_def rbind_def)
      then show ?thesis using loosened_trans [OF l2 u [of s2]] by simp
    qed
  qed
qed

lemma untie_outcome:
  "\<exists>r. untie s plist = Some r \<and> loosened s (outcome_state r)"
proof -
  let ?s0 = "s\<lparr>update_on := False\<rparr>"
  let ?r = "case untie_body ?s0 plist of Inl e \<Rightarrow> Inl e | Inr s4 \<Rightarrow> Inr (s4\<lparr>update_on := True\<rparr>)"
  have r: "untie s plist = Some ?r" unfolding untie_def by (rule public_op_returns)
  have "loosened s ?s0" by (rule loosened_same) simp_all
  also have "loosened ?s0 (outcome_state (untie_body ?s0 plist))" by (rule untie_body_outcome)
  also have "loosened (outcome_state (untie_body ?s0 plist)) (outcome_state ?r)"
    by (rule loosened_same)
      (auto simp: outcome_state_def split: sum.splits)
  finally show ?thesis using r by blast
qed

subsection \<open>Tying leaves that carry no label\<close>

lemma new_label_above:
  shows "0 < new_label s" and "\<forall>t\<in>set (tied_cells s). tie t < new_label s"
proof -
  show "0 < new_label s" by (cases "tied_param s") (simp_all add: new_label_def)
  show "\<forall>t\<in>set (tied_cells s). tie t < new_label s"
  proof (cases "tied_param s")
    case None
    then show ?thesis by (simp add: tied_cells_def)
  next
    case (Some ts)
    have "tie t < Max (set (map tie ts)) + 1" if "t \<in> set ts" for t
    proof -
      have "tie t \<le> Max (set (map tie ts))" using that by (intro Max_ge) simp_all
      then show ?thesis by simp
    qed
    then show ?thesis using Some by (simp add: tied_cells_def new_label_def)
  qed
qed

lemma expand_tie_param_one:
  assumes ne: "tied_param s \<noteq> Some []"
  shows "\<exists>s2. expand_tie_param s 1 = Inr (([new_label s], [length (tied_cells s)]), s2) \<and>
           params s2 = params s \<and> PROPAGATE_VAL s2 = PROPAGATE_VAL s \<and>
           tied_param s2 \<noteq> None \<and>
           map tie (tied_cells s2) = map tie (tied_cells s) @ [new_label s] \<and>
           map val (tied_cells s2) = map val (tied_cells s) @ [uninit s (length (tied_cells s))]"
proof (cases "tied_param s")
  case None
  let ?s2 = "s\<lparr>tied_param := Some (fresh_cells s 0 [uninit s 0] [1])\<rparr>"
  have e: "expand_tie_param s 1 = Inr (([1], [0]), ?s2)"
    using None by (simp add: expand_tie_param_def Let_def)
  have l: "length [1::nat] = length [uninit s 0]" by simp
  note fc = fresh_cells_props [OF l, of s 0]
  have tc: "tied_cells ?s2 = fresh_cells s 0 [uninit s 0] [1]" by (simp add: tied_cells_def)
  have nl: "new_label s = 1" "tied_cells s = []" using None by (simp_all add: new_label_def tied_cells_def)
  show ?thesis using e nl
    by (intro exI [of _ ?s2]) (simp add: tied_cells_def fresh_cells_props)
next
  case (Some t)
  then have tne: "t \<noteq> []" using ne by simp
  define L where "L = Max (set (map tie t)) + 1"
  define vs where "vs = map val t @ [uninit s (length t)]"
  define ls where "ls = map tie t @ [L]"
  let ?s2 = "s\<lparr>tied_param := Some (fresh_cells s 0 vs ls)\<rparr>"
  have e: "expand_tie_param s 1 = Inr (([L], [length t]), ?s2)"
    using Some tne by (simp add: expand_tie_param_def Let_def L_def vs_def ls_def)
  have l: "length ls = length vs" by (simp add: ls_def vs_def)
  note fc = fresh_cells_props [OF l, of s 0]
  have tc: "tied_cells ?s2 = fresh_cells s 0 vs ls" by (simp add: tied_cells_def)
  have nl: "new_label s = L" "tied_cells s = t"
    using Some by (simp_all add: new_label_def tied_cells_def L_def)
  show ?thesis unfolding nl e using fc
    by (intro exI [of _ ?s2]) (simp add: tied_cells_def vs_def ls_def)
qed

lemma update_label_buf_ok:
  assumes "\<forall>c\<in>set (tied_cells s). 0 < tie c"
  shows "\<exists>s'. update_label_buf s = Inr s'"
proof (cases "tied_param s")
  case None
  then show ?thesis by (simp add: update_label_buf_def)
next
  case (Some t)
  then show ?thesis using assms by (simp add: update_label_buf_def Let_def tied_cells_def)
qed

lemma get_labels_untied:
  assumes u: "\<forall>k\<in>set (leaves_of plist). \<forall>x\<in>set (leaf s k). tie x = 0"
    and n: "\<exists>k\<in>set (leaves_of plist). leaf s k \<noteq> []"
  shows "get_labels s plist = Inr [0]"
proof -
  let ?ls = "concat (map (\<lambda>k. map tie (leaf s k)) (leaves_of plist))"
  have "set ?ls = {0}"
  proof
    show "set ?ls \<subseteq> {0}" using u by auto
    from n obtain k where k: "k \<in> set (leaves_of plist)" "leaf s k \<noteq> []" by blast
    from k(2) obtain x where "x \<in> set (leaf s k)" by (cases "leaf s k") auto
    with k(1) have "k \<in> set (leaves_of plist)" "x \<in> set (leaf s k)" by simp_all
    moreover from this u have "tie x = 0" by blast
    ultimately have "0 \<in> set ?ls" by force
    then show "{0} \<subseteq> set ?ls" by simp
  qed
  then have "np_unique ?ls = [0]" by (simp add: np_unique_def flip: sorted_list_of_set_sort_remdups)
  moreover have "leaves_of plist \<noteq> []" using n by auto
  ultimately show ?thesis by (simp add: get_labels_def Let_def)
qed

lemma slot_values_set:
  assumes tt: "map tie ts = ls @ [L]" and tv: "map val ts = vs @ [w]" and l: "length ls = length vs"
    and lt: "\<forall>l\<in>set ls. l \<noteq> L"
  shows "map val (map (\<lambda>c. if tie c = L then c\<lparr>val := v\<rparr> else c) ts) = vs @ [v]"
proof -
  from tt obtain us y where ts: "ts = us @ [y]" and us: "map tie us = ls" and y: "tie y = L"
    unfolding map_eq_append_conv by (auto simp: map_eq_Cons_conv)
  from tv ts l us have vu: "map val us = vs"
    by (metis append_eq_append_conv length_map map_append)
  have "map (\<lambda>c. if tie c = L then c\<lparr>val := v\<rparr> else c) us = us"
  proof (rule map_idI)
    fix c assume "c \<in> set us"
    then have "tie c \<in> set ls" unfolding us [symmetric] by simp
    then show "(if tie c = L then c\<lparr>val := v\<rparr> else c) = c" using lt by auto
  qed
  then show ?thesis unfolding ts using vu y by simp
qed

lemma tie_untied_body:
  assumes wl: "well_labelled s"
    and u: "\<forall>k\<in>set (leaves_of plist). \<forall>x\<in>set (leaf s k). tie x = 0"
    and n: "\<exists>k\<in>set (leaves_of plist). leaf s k \<noteq> []"
    and v: "v = mean (concat (map (\<lambda>p. concat (map (\<lambda>k. map val (leaf s k)) (traverse_param p)))
                               plist))"
  shows "\<exists>s4. tie_together_body s plist = Inr s4 \<and> fresh s4 \<and>
           PROPAGATE_VAL s4 = PROPAGATE_VAL s \<and>
           (\<forall>k. leaf s4 k = (if k \<in> set (leaves_of plist)
                             then map (\<lambda>c. c\<lparr>val := v, tie := new_label s\<rparr>) (leaf s k)
                             else leaf s k)) \<and>
           length (params s4) = length (params s) \<and>
           map tie (tied_cells s4) = map tie (tied_cells s) @ [new_label s] \<and>
           map val (tied_cells s4) = map val (tied_cells s) @ [v]"
proof -
  define ks where "ks = leaves_of plist"
  define L where "L = new_label s"
  define s1 where "s1 = foldl (set_val v) s ks"
  have pne: "plist \<noteq> []" using n by (auto simp: leaves_of_def)
  have sv: "sync_val_group s plist = Inr (v, s1)"
    using pne by (simp add: sync_val_group_def Let_def v s1_def ks_def)
  have gl: "get_labels s plist = Inr [0]" using u n by (rule get_labels_untied)
  have tp1: "tied_param s1 = tied_param s" unfolding s1_def by (rule set_val_foldl(2))
  then have tc1: "tied_cells s1 = tied_cells s" and nl1: "new_label s1 = L"
    by (simp_all add: tied_cells_def new_label_def L_def)
  have "tied_param s1 \<noteq> Some []" using wl unfolding tp1 well_labelled_def by blast
  from expand_tie_param_one [OF this] obtain s2 where
    e: "expand_tie_param s1 1 = Inr (([L], [length (tied_cells s)]), s2)"
    and ps2: "params s2 = params s1" and tn2: "tied_param s2 \<noteq> None"
    and tt2: "map tie (tied_cells s2) = map tie (tied_cells s) @ [L]"
    and tv2: "map val (tied_cells s2) = map val (tied_cells s) @ [uninit s1 (length (tied_cells s))]"
    unfolding tc1 nl1 by blast
  define s3 where "s3 = foldl (set_l1 L) s2 ks"
  have br: "tie_together_untied s1 plist = Inr ([L], s3)"
    unfolding tie_together_untied_def e by (simp add: rbind_def set_labels_one s3_def ks_def)
  have tp3: "tied_param s3 = tied_param s2" unfolding s3_def by (rule set_l1_foldl(2))
  then have tc3: "tied_cells s3 = tied_cells s2" by (simp add: tied_cells_def)
  have pos: "0 < L" and above: "\<forall>t\<in>set (tied_cells s). tie t < L"
    unfolding L_def by (rule new_label_above)+
  have "\<forall>l\<in>set (map tie (tied_cells s3)). 0 < l"
    unfolding tc3 tt2 using pos wl by (auto simp: well_labelled_def)
  then have "\<forall>c\<in>set (tied_cells s3). 0 < tie c" by simp
  from update_label_buf_ok [OF this] obtain s5 where ub: "update_label_buf s3 = Inr s5" ..
  note up = update_label_buf_post [OF ub]
  define h' :: "cell \<Rightarrow> cell" where "h' = (\<lambda>c. if tie c = L then c\<lparr>val := v\<rparr> else c)"
  obtain t5 where t5: "tied_param s5 = Some t5" using tn2 up(3) tp3 by auto
  define s4 where "s4 = s5\<lparr>tied_param := Some (map h' t5)\<rparr>"
  have st: "set_tied_where s5 L v = Inr s4"
    by (simp add: set_tied_where_def t5 s4_def h'_def)
  have body: "tie_together_body s plist = Inr s4"
    by (simp add: tie_together_body_def gl raise_in_def rbind_def sv br ub st)
  note bp = tie_together_body_post [OF body]
  have tc5: "tied_cells s5 = tied_cells s2" using up(3) tp3 by (simp add: tied_cells_def)
  have tc4: "tied_cells s4 = map h' (tied_cells s2)"
    unfolding tc5 [symmetric] by (simp add: s4_def tied_cells_def t5)
  have lf: "leaf s4 k = (if k \<in> set ks then map (\<lambda>c. c\<lparr>val := v, tie := L\<rparr>) (leaf s k)
                         else leaf s k)" for k
  proof -
    have "leaf s4 k = leaf s3 k" using up(2) by (simp add: leaf_def s4_def)
    also have "\<dots> = (if k \<in> set ks then map (\<lambda>c. c\<lparr>tie := L\<rparr>) (leaf s2 k) else leaf s2 k)"
      unfolding s3_def by (rule set_l1_foldl(1))
    also have "leaf s2 k = leaf s1 k" using ps2 by (simp add: leaf_def)
    also have "\<dots> = (if k \<in> set ks then map (\<lambda>c. c\<lparr>val := v\<rparr>) (leaf s k) else leaf s k)"
      unfolding s1_def by (rule set_val_foldl(1))
    finally show ?thesis by simp
  qed
  have len: "length (params s4) = length (params s)"
  proof -
    have "length (params s4) = length (params s3)" using up(2) by (simp add: s4_def)
    also have "\<dots> = length (params s2)" unfolding s3_def by (rule set_l1_foldl(4))
    also have "\<dots> = length (params s1)" using ps2 by simp
    also have "\<dots> = length (params s)" unfolding s1_def by (rule set_val_foldl(4))
    finally show ?thesis .
  qed
  have tt4: "map tie (tied_cells s4) = map tie (tied_cells s) @ [L]"
    unfolding tc4 tt2 [symmetric] by (simp add: h'_def comp_def)
  have nL: "\<forall>l\<in>set (map tie (tied_cells s)). l \<noteq> L" using above by auto
  have tv4: "map val (tied_cells s4) = map val (tied_cells s) @ [v]"
    unfolding tc4 h'_def by (rule slot_values_set [OF tt2 tv2 _ nL]) simp
  show ?thesis
    using body bp(1,2) lf len tt4 tv4 unfolding ks_def L_def
    by (intro exI [of _ s4]) simp
qed

lemma in_concat_params_leaf:
  "x \<in> set (concat (params s)) \<longleftrightarrow> (\<exists>k. x \<in> set (leaf s k))"
proof
  assume "x \<in> set (concat (params s))"
  then obtain p where "p \<in> set (params s)" "x \<in> set p" by auto
  then obtain k where "k < length (params s)" "params s ! k = p" "x \<in> set p"
    unfolding in_set_conv_nth by blast
  then have "x \<in> set (leaf s k)" by (simp add: leaf_def)
  then show "\<exists>k. x \<in> set (leaf s k)" ..
next
  assume "\<exists>k. x \<in> set (leaf s k)"
  then obtain k where k: "x \<in> set (leaf s k)" ..
  then have "k < length (params s)" by (cases "k < length (params s)") (simp_all add: leaf_def)
  with k show "x \<in> set (concat (params s))" by (auto simp: leaf_def)
qed

lemma well_labelled_update_on [simp]:
  "well_labelled (s\<lparr>update_on := b\<rparr>) = well_labelled s"
  "new_label (s\<lparr>update_on := b\<rparr>) = new_label s"
  by (simp_all add: well_labelled_def new_label_def)

lemma tie_together_untied_post:
  assumes wl: "well_labelled s"
    and u: "\<forall>k\<in>set (leaves_of plist). \<forall>x\<in>set (leaf s k). tie x = 0"
    and n: "\<exists>k\<in>set (leaves_of plist). leaf s k \<noteq> []"
    and v: "v = mean (concat (map (\<lambda>p. concat (map (\<lambda>k. map val (leaf s k)) (traverse_param p)))
                               plist))"
  shows "\<exists>s'. tie_together s plist = Some (Inr s') \<and>
           (\<forall>k\<in>set (leaves_of plist).
              leaf s' k = map (\<lambda>c. c\<lparr>val := v, tie := new_label s\<rparr>) (leaf s k)) \<and>
           (\<forall>k. k \<notin> set (leaves_of plist) \<longrightarrow> map tie (leaf s' k) = map tie (leaf s k)) \<and>
           map tie (tied_cells s') = map tie (tied_cells s) @ [new_label s] \<and>
           val (last (tied_cells s')) = v"
proof -
  let ?s0 = "s\<lparr>update_on := False\<rparr>"
  define L where "L = new_label s"
  define ks where "ks = leaves_of plist"
  have wl0: "well_labelled ?s0" using wl by simp
  have u0: "\<forall>k\<in>set (leaves_of plist). \<forall>x\<in>set (leaf ?s0 k). tie x = 0" using u by simp
  have n0: "\<exists>k\<in>set (leaves_of plist). leaf ?s0 k \<noteq> []" using n by simp
  have v0: "v = mean (concat (map (\<lambda>p. concat (map (\<lambda>k. map val (leaf ?s0 k)) (traverse_param p)))
                               plist))" using v by simp
  from tie_untied_body [OF wl0 u0 n0 v0] obtain s4 where
    body: "tie_together_body ?s0 plist = Inr s4" and f4: "fresh s4"
    and lf: "\<And>k. leaf s4 k = (if k \<in> set ks then map (\<lambda>c. c\<lparr>val := v, tie := L\<rparr>) (leaf s k)
                               else leaf s k)"
    and tt: "map tie (tied_cells s4) = map tie (tied_cells s) @ [L]"
    and tv: "map val (tied_cells s4) = map val (tied_cells s) @ [v]"
    unfolding L_def ks_def by auto
  define s' where "s' = s4\<lparr>update_on := True\<rparr>"
  have r: "tie_together s plist = Some (Inr s')"
    by (simp add: tie_together_def public_op_returns body s'_def)
  have a: "leaf s' k = map (\<lambda>c. c\<lparr>val := v, tie := L\<rparr>) (leaf s k)" if "k \<in> set ks" for k
    unfolding s'_def using that lf [of k] by simp
  have b: "map tie (leaf s' k) = map tie (leaf s k)" if "k \<notin> set ks" for k
    unfolding s'_def using that lf [of k] by simp
  have tc: "tied_cells s' = tied_cells s4" unfolding s'_def by simp
  have ne4: "tied_cells s4 \<noteq> []" using arg_cong [OF tt, of length] by auto
  have "val (last (tied_cells s4)) = last (map val (tied_cells s4))"
    using ne4 by (simp add: last_map)
  also have "\<dots> = v" unfolding tv by simp
  finally have c: "val (last (tied_cells s')) = v" unfolding tc .
  have tt': "map tie (tied_cells s') = map tie (tied_cells s) @ [L]" unfolding tc by (rule tt)
  show ?thesis
    using r a b c tt' unfolding L_def ks_def by (intro exI [of _ s']) simp
qed

subsection \<open>A tie undone\<close>

lemma filter_flat_cells_length:
  "length (filter P (flat_cells s)) =
     length (filter P (concat (params s))) + length (filter P (tied_cells s))"
proof -
  let ?C = "concat (params s)"
  have "length (filter P ?C) = length (filter P (take (tie_start s) ?C @ drop (tie_start s) ?C))"
    by simp
  also have "\<dots> = length (filter P (take (tie_start s) ?C)) +
                   length (filter P (drop (tie_start s) ?C))"
    by (simp only: filter_append length_append)
  finally show ?thesis by (simp add: flat_cells_def)
qed

lemma loosened_leaf:
  assumes l: "loosened s s'" and x: "x' \<in> set (leaf s' k)"
  shows "\<exists>x\<in>set (leaf s k). loosens x x'"
proof -
  have pl: "list_all2 (list_all2 loosens) (params s) (params s')"
    using l unfolding loosened_def ..
  have lk: "length (params s) = length (params s')" using pl by (rule list_all2_lengthD)
  have k: "k < length (params s')" using x by (cases "k < length (params s')") (simp_all add: leaf_def)
  then have k': "k < length (params s)" using lk by simp
  have r: "list_all2 loosens (leaf s k) (leaf s' k)"
    using list_all2_nthD2 [OF pl k] unfolding params_nth_leaf [OF k] params_nth_leaf [OF k'] .
  from x obtain i where i: "i < length (leaf s' k)" "leaf s' k ! i = x'"
    unfolding in_set_conv_nth by blast
  have li: "length (leaf s k) = length (leaf s' k)" using r by (rule list_all2_lengthD)
  have "loosens (leaf s k ! i) x'" using list_all2_nthD2 [OF r i(1)] i(2) by simp
  moreover have "leaf s k ! i \<in> set (leaf s k)" using i(1) li by simp
  ultimately show ?thesis by blast
qed

lemma remove_unnecessary_ties_ok:
  assumes f: "fresh s"
  shows "\<exists>s'. remove_unnecessary_ties s = Inr s' \<and> loosened s s' \<and>
           (\<forall>t\<in>set (tied_cells s'). \<exists>u\<in>set (tied_cells s). tie t = tie u \<and>
              2 < length (filter (\<lambda>x. tie x = tie u) (flat_cells s)))"
proof (cases "tied_cells s = []")
  case True
  then have "tied_param s = None \<or> tied_param s = Some []"
    by (cases "tied_param s") (simp_all add: tied_cells_def)
  then have "remove_unnecessary_ties s = Inr s" by (auto simp: remove_unnecessary_ties_def)
  then show ?thesis using True by (intro exI [of _ s]) (simp add: loosened_refl)
next
  case False
  define lb where "lb = map tie (flat_cells s)"
  define K :: "cell \<Rightarrow> bool" where "K = (\<lambda>t. 2 < length (filter (\<lambda>x. x = tie t) lb))"
  from False f have b: "label_buf s = Some lb" unfolding fresh_def lb_def by blast
  from remove_unnecessary_ties_filter [OF b] obtain s' where
    r: "remove_unnecessary_ties s = Inr s'"
    and tt: "map tie (tied_cells s') = map tie (filter K (tied_cells s))"
    unfolding K_def by blast
  have cnt: "length (filter (\<lambda>x. x = l) lb) = length (filter (\<lambda>x. tie x = l) (flat_cells s))" for l
    unfolding lb_def by (simp add: filter_map comp_def)
  have "\<exists>u\<in>set (tied_cells s). tie t = tie u \<and>
          2 < length (filter (\<lambda>x. tie x = tie u) (flat_cells s))"
    if "t \<in> set (tied_cells s')" for t
  proof -
    from that obtain i where i: "i < length (tied_cells s')" "tied_cells s' ! i = t"
      unfolding in_set_conv_nth by blast
    have l: "length (filter K (tied_cells s)) = length (tied_cells s')"
      using tt by (rule map_eq_imp_length_eq [symmetric])
    let ?u = "filter K (tied_cells s) ! i"
    have "i < length (filter K (tied_cells s))" using i(1) l by simp
    then have "?u \<in> set (filter K (tied_cells s))" by (rule nth_mem)
    then have "?u \<in> set (tied_cells s)" "K ?u" by simp_all
    moreover have "tie t = tie ?u" using map_eq_nthD [OF tt i(1)] i(2) by simp
    ultimately show ?thesis unfolding K_def cnt by blast
  qed
  moreover have "loosened s s'" using r by (rule remove_unnecessary_ties_loosened)
  ultimately show ?thesis using r by (intro exI [of _ s']) blast
qed

lemma untie_returns:
  assumes pos: "\<forall>t\<in>set (tied_cells s). 0 < tie t"
  shows "\<exists>s'. untie s plist = Some (Inr s') \<and>
           (\<forall>k\<in>set (leaves_of plist). \<forall>x\<in>set (leaf s' k). tie x = 0) \<and>
           (\<forall>t\<in>set (tied_cells s'). \<exists>u\<in>set (tied_cells s). tie t = tie u \<and>
              2 < length (filter (\<lambda>x. tie x = tie u)
                            (concat (params (set_labels (s\<lparr>update_on := False\<rparr>) plist [0])))) +
                  length (filter (\<lambda>x. tie x = tie u) (tied_cells s)))"
proof -
  let ?s0 = "s\<lparr>update_on := False\<rparr>"
  define ks where "ks = leaves_of plist"
  define sA where "sA = set_labels ?s0 plist [0]"
  have sA: "sA = foldl (set_l1 0) ?s0 ks" unfolding sA_def ks_def by (rule set_labels_one)
  have tpA: "tied_param sA = tied_param s" unfolding sA by (simp add: set_l1_foldl(2))
  then have tcA: "tied_cells sA = tied_cells s" by (simp add: tied_cells_def)
  have "\<forall>c\<in>set (tied_cells sA). 0 < tie c" unfolding tcA by (rule pos)
  from update_label_buf_ok [OF this] obtain s1 where u1: "update_label_buf sA = Inr s1" ..
  note p1 = update_label_buf_post [OF u1]
  have tc1: "tied_cells s1 = tied_cells s" using p1(3) tcA by (simp add: tied_cells_def)
  from remove_unnecessary_ties_ok [OF p1(1)] obtain s2 where
    ru: "remove_unnecessary_ties s1 = Inr s2" and l12: "loosened s1 s2"
    and k2: "\<forall>t\<in>set (tied_cells s2). \<exists>u\<in>set (tied_cells s1). tie t = tie u \<and>
              2 < length (filter (\<lambda>x. tie x = tie u) (flat_cells s1))" by blast
  have "\<forall>c\<in>set (tied_cells s2). 0 < tie c"
  proof
    fix c assume "c \<in> set (tied_cells s2)"
    with k2 obtain u where "u \<in> set (tied_cells s1)" "tie c = tie u" by blast
    then show "0 < tie c" using pos unfolding tc1 by simp
  qed
  from update_label_buf_ok [OF this] obtain s3 where u2: "update_label_buf s2 = Inr s3" ..
  note p2 = update_label_buf_post [OF u2]
  have body: "untie_body ?s0 plist = Inr s3"
    unfolding untie_body_def sA_def [symmetric] by (simp add: rbind_def u1 ru u2)
  define s' where "s' = s3\<lparr>update_on := True\<rparr>"
  have r: "untie s plist = Some (Inr s')"
    by (simp add: untie_def public_op_returns body s'_def)
  have a: "tie x = 0" if k: "k \<in> set ks" and x: "x \<in> set (leaf s' k)" for k x
  proof -
    from x have x3: "x \<in> set (leaf s3 k)" unfolding s'_def by simp
    have "leaf s3 k = leaf s2 k" using p2(2) by (simp add: leaf_def)
    with x3 l12 obtain x1 where x1: "x1 \<in> set (leaf s1 k)" "loosens x1 x"
      using loosened_leaf by metis
    have "leaf s1 k = leaf sA k" using p1(2) by (simp add: leaf_def)
    also have "\<dots> = map (\<lambda>c. c\<lparr>tie := 0\<rparr>) (leaf ?s0 k)"
      unfolding sA set_l1_foldl(1) using k by simp
    finally have "tie x1 = 0" using x1(1) by auto
    then show ?thesis using x1(2) by (auto simp: loosens_def)
  qed
  have tc3: "tied_cells s3 = tied_cells s2" using p2(3) by (simp add: tied_cells_def)
  have tt': "map tie (tied_cells s') = map tie (tied_cells s3)"
    unfolding s'_def by simp
  have fl1: "length (filter P (flat_cells s1)) =
             length (filter P (concat (params sA))) + length (filter P (tied_cells s))" for P
    unfolding filter_flat_cells_length p1(2) tc1 ..
  have b: "\<exists>u\<in>set (tied_cells s). tie t = tie u \<and>
              2 < length (filter (\<lambda>x. tie x = tie u) (concat (params sA))) +
                  length (filter (\<lambda>x. tie x = tie u) (tied_cells s))"
    if t: "t \<in> set (tied_cells s')" for t
  proof -
    from t obtain i where i: "i < length (tied_cells s')" "tied_cells s' ! i = t"
      unfolding in_set_conv_nth by blast
    have l: "length (tied_cells s3) = length (tied_cells s')"
      using tt' by (rule map_eq_imp_length_eq [symmetric])
    have "tied_cells s3 ! i \<in> set (tied_cells s2)" using i(1) l unfolding tc3 [symmetric] by simp
    moreover have "tie t = tie (tied_cells s3 ! i)" using map_eq_nthD [OF tt' i(1)] i(2) by simp
    ultimately obtain u where "u \<in> set (tied_cells s1)" "tie t = tie u"
      "2 < length (filter (\<lambda>x. tie x = tie u) (flat_cells s1))" using k2 by force
    then show ?thesis unfolding fl1 tc1 by blast
  qed
  show ?thesis using r a b unfolding ks_def sA_def by (intro exI [of _ s']) blast
qed

subsection \<open>The change check, group by group\<close>

lemma select_map_same: "select (map P xs) xs = filter P xs"
  by (induction xs) simp_all

lemma length_filter_id_map: "length (filter id (map P xs)) = length (filter P xs)"
  by (induction xs) simp_all

lemma filter_id_map_Nil: "filter id (map P xs) = [] \<longleftrightarrow> filter P xs = []"
  by (induction xs) simp_all

lemma select_cong:
  assumes "length m = length xs" "length xs = length ys"
    and "\<forall>j<length m. m ! j \<longrightarrow> xs ! j = ys ! j"
  shows "select m xs = select m ys"
  using assms
proof (induction m xs ys rule: list_induct3)
  case Nil
  then show ?case by simp
next
  case (Cons b m x xs y ys)
  from Cons.prems have h: "b \<longrightarrow> x = y" and t: "\<forall>j<length m. m ! j \<longrightarrow> xs ! j = ys ! j"
    by (auto simp: All_less_Suc2)
  from Cons.IH [OF t] h show ?case by simp
qed

lemma map2_snd: "length xs = length ys \<Longrightarrow> map2 (\<lambda>l v. v) xs ys = ys"
  by (induction xs ys rule: list_induct2) simp_all

lemma check_group_exact:
  assumes len: "length lb = length pa"
    and i: "i < length bi" "bi ! i = a + i" "a + i < length lb"
  shows "check_group lb bi a i pa =
           Inr (differs lb pa (lb ! (a + i)) (pa ! (a + i)) \<noteq> [],
                map2 (\<lambda>l v. if l = lb ! (a + i)
                             then fix_val lb pa (lb ! (a + i)) (pa ! (a + i)) v else v) lb pa)"
proof -
  define L where "L = lb ! (a + i)"
  define t where "t = pa ! (a + i)"
  define b0 where "b0 = map (\<lambda>l. l = L) lb"
  define D where "D = differs lb pa L t"
  have D: "D = filter (\<lambda>w. w \<noteq> t) (select b0 pa)" by (simp add: D_def differs_def b0_def)
  have cnt: "length (filter id (map (\<lambda>x. x \<noteq> t) (select b0 pa))) = length D"
    unfolding D by (rule length_filter_id_map)
  have sel: "select (map (\<lambda>x. x \<noteq> t) (select b0 pa)) (select b0 pa) = D"
    unfolding D by (rule select_map_same)
  have asg: "assign_mask b0 pa w = map2 (\<lambda>l v. if l = L then w else v) lb pa" for w
    by (simp add: assign_mask_def b0_def zip_map1 case_prod_unfold)
  have cg: "check_group lb bi a i pa =
        (if length D = 0 then Inr (False, pa)
         else if length D = 1 then Inr (True, assign_mask b0 pa (hd D))
         else Inr (True, assign_mask b0 pa t))"
    unfolding D b0_def L_def t_def using i len
    by (simp add: check_group_def Let_def length_filter_id_map select_map_same
        filter_id_map_Nil)
  show ?thesis
  proof (cases D)
    case Nil
    then have fx: "fix_val lb pa L t v = v" for v by (simp add: fix_val_def D_def [symmetric])
    have "map2 (\<lambda>l v. if l = L then fix_val lb pa L t v else v) lb pa = pa"
      by (rule nth_equalityI) (simp_all add: len fx)
    then show ?thesis using cg Nil unfolding L_def [symmetric] t_def [symmetric] D_def [symmetric]
      by simp
  next
    case (Cons d r)
    show ?thesis
    proof (cases r)
      case Nil
      then have fx: "fix_val lb pa L t v = d" for v
        using Cons by (simp add: fix_val_def D_def [symmetric])
      have "check_group lb bi a i pa = Inr (True, assign_mask b0 pa d)"
        using cg Cons Nil by simp
      then show ?thesis
        unfolding L_def [symmetric] t_def [symmetric] D_def [symmetric] asg using Cons
        by (simp add: fx cong: if_cong)
    next
      case c2: (Cons e r')
      then have fx: "fix_val lb pa L t v = t" for v
        using Cons by (simp add: fix_val_def D_def [symmetric])
      have "check_group lb bi a i pa = Inr (True, assign_mask b0 pa t)"
        using cg Cons c2 by simp
      then show ?thesis
        unfolding L_def [symmetric] t_def [symmetric] D_def [symmetric] asg using Cons
        by (simp add: fx cong: if_cong)
    qed
  qed
qed

lemma differs_cong:
  assumes len: "length lb = length pa" and l1: "length pa1 = length pa"
    and ag: "\<forall>j<length pa. lb ! j = L \<longrightarrow> pa1 ! j = pa ! j"
  shows "differs lb pa1 L t = differs lb pa L t"
proof -
  have "select (map (\<lambda>l. l = L) lb) pa1 = select (map (\<lambda>l. l = L) lb) pa"
  proof (rule select_cong)
    show "length (map (\<lambda>l. l = L) lb) = length pa1" using len l1 by simp
    show "length pa1 = length pa" by (rule l1)
    show "\<forall>j<length (map (\<lambda>l. l = L) lb). map (\<lambda>l. l = L) lb ! j \<longrightarrow> pa1 ! j = pa ! j"
      using ag len by simp
  qed
  then show ?thesis by (simp add: differs_def)
qed

lemma check_loop_exact:
  assumes "length lb = length pa"
    and "\<forall>i\<in>set is. i < length bi \<and> bi ! i = a + i \<and> a + i < length lb"
    and "distinct (map (\<lambda>i. lb ! (a + i)) is)"
  shows "\<exists>c pa'. check_loop lb bi a is ch pa = Inr (c, pa') \<and> length pa' = length pa \<and>
           (\<forall>i\<in>set is. \<forall>j<length pa. lb ! j = lb ! (a + i) \<longrightarrow>
              pa' ! j = fix_val lb pa (lb ! (a + i)) (pa ! (a + i)) (pa ! j)) \<and>
           (\<forall>j<length pa. (\<forall>i\<in>set is. lb ! j \<noteq> lb ! (a + i)) \<longrightarrow> pa' ! j = pa ! j) \<and>
           (c \<longleftrightarrow> ch \<or> (\<exists>i\<in>set is. differs lb pa (lb ! (a + i)) (pa ! (a + i)) \<noteq> []))"
  using assms
proof (induction "is" arbitrary: ch pa)
  case Nil
  then show ?case by simp
next
  case (Cons i "is")
  define L where "L = lb ! (a + i)"
  define t where "t = pa ! (a + i)"
  define c1 where "c1 \<longleftrightarrow> differs lb pa L t \<noteq> []"
  define pa1 where "pa1 = map2 (\<lambda>l v. if l = L then fix_val lb pa L t v else v) lb pa"
  note len = Cons.prems(1)
  from Cons.prems(2) have i: "i < length bi" "bi ! i = a + i" "a + i < length lb" by auto
  have g: "check_group lb bi a i pa = Inr (c1, pa1)"
    unfolding c1_def pa1_def L_def t_def by (rule check_group_exact [OF len i])
  have l1: "length pa1 = length pa" using len by (simp add: pa1_def)
  have n1: "pa1 ! j = (if lb ! j = L then fix_val lb pa L t (pa ! j) else pa ! j)"
    if "j < length pa" for j
    using that len by (simp add: pa1_def)
  have len1: "length lb = length pa1" using l1 len by simp
  have rest: "\<forall>i\<in>set is. i < length bi \<and> bi ! i = a + i \<and> a + i < length lb"
    using Cons.prems(2) by simp
  have d: "distinct (map (\<lambda>i. lb ! (a + i)) is)"
    and nin: "L \<notin> (\<lambda>i. lb ! (a + i)) ` set is"
    using Cons.prems(3) by (simp_all add: L_def)
  have nl: "\<forall>i'\<in>set is. lb ! (a + i') \<noteq> L"
  proof
    fix i' assume "i' \<in> set is"
    then have "lb ! (a + i') \<in> (\<lambda>i. lb ! (a + i)) ` set is" by (rule imageI)
    then show "lb ! (a + i') \<noteq> L" using nin by metis
  qed
  from Cons.IH [OF len1 rest d, of "ch \<or> c1"]
  obtain c2 pa2 where r: "check_loop lb bi a is (ch \<or> c1) pa1 = Inr (c2, pa2)"
    and l2: "length pa2 = length pa1"
    and m2: "\<forall>i'\<in>set is. \<forall>j<length pa1. lb ! j = lb ! (a + i') \<longrightarrow>
               pa2 ! j = fix_val lb pa1 (lb ! (a + i')) (pa1 ! (a + i')) (pa1 ! j)"
    and o2: "\<forall>j<length pa1. (\<forall>i'\<in>set is. lb ! j \<noteq> lb ! (a + i')) \<longrightarrow> pa2 ! j = pa1 ! j"
    and c2: "c2 \<longleftrightarrow> (ch \<or> c1) \<or>
               (\<exists>i'\<in>set is. differs lb pa1 (lb ! (a + i')) (pa1 ! (a + i')) \<noteq> [])"
    by blast
  have e: "check_loop lb bi a (i # is) ch pa = Inr (c2, pa2)" using g r by simp
  have same: "differs lb pa1 (lb ! (a + i')) w = differs lb pa (lb ! (a + i')) w"
    and slot: "pa1 ! (a + i') = pa ! (a + i')" if i': "i' \<in> set is" for i' w
  proof -
    have ne: "lb ! (a + i') \<noteq> L" using nl i' by blast
    have ag: "\<forall>j<length pa. lb ! j = lb ! (a + i') \<longrightarrow> pa1 ! j = pa ! j"
      using n1 ne by simp
    show "differs lb pa1 (lb ! (a + i')) w = differs lb pa (lb ! (a + i')) w"
      using len l1 ag by (rule differs_cong)
    have "a + i' < length pa" using rest i' len by simp
    then show "pa1 ! (a + i') = pa ! (a + i')" using ag by blast
  qed
  have fx: "fix_val lb pa1 (lb ! (a + i')) (pa1 ! (a + i')) v =
            fix_val lb pa (lb ! (a + i')) (pa ! (a + i')) v" if "i' \<in> set is" for i' v
    unfolding fix_val_def slot [OF that] same [OF that] ..
  have A: "pa2 ! j = fix_val lb pa (lb ! (a + i')) (pa ! (a + i')) (pa ! j)"
    if i': "i' \<in> set (i # is)" and j: "j < length pa" and e: "lb ! j = lb ! (a + i')" for i' j
  proof (cases "i' \<in> set is")
    case True
    then have ne: "lb ! j \<noteq> L" using nl e by simp
    have "pa2 ! j = fix_val lb pa1 (lb ! (a + i')) (pa1 ! (a + i')) (pa1 ! j)"
      using m2 True j l1 e by simp
    also have "pa1 ! j = pa ! j" using n1 [OF j] ne by simp
    finally show ?thesis unfolding fx [OF True] .
  next
    case False
    then have ii: "i' = i" using i' by simp
    have "\<forall>i'\<in>set is. lb ! j \<noteq> lb ! (a + i')" using nl e unfolding ii L_def by metis
    then have "pa2 ! j = pa1 ! j" using o2 j l1 by simp
    also have "\<dots> = fix_val lb pa L t (pa ! j)" using n1 [OF j] e unfolding ii L_def by simp
    finally show ?thesis unfolding ii L_def t_def .
  qed
  have B: "pa2 ! j = pa ! j"
    if j: "j < length pa" and o: "\<forall>i'\<in>set (i # is). lb ! j \<noteq> lb ! (a + i')" for j
  proof -
    have "pa2 ! j = pa1 ! j" using o2 j l1 o by simp
    also have "\<dots> = pa ! j" using n1 [OF j] o by (simp add: L_def)
    finally show ?thesis .
  qed
  have C: "c2 \<longleftrightarrow> ch \<or> (\<exists>i'\<in>set (i # is). differs lb pa (lb ! (a + i')) (pa ! (a + i')) \<noteq> [])"
  proof -
    have "(\<exists>i'\<in>set is. differs lb pa1 (lb ! (a + i')) (pa1 ! (a + i')) \<noteq> []) \<longleftrightarrow>
          (\<exists>i'\<in>set is. differs lb pa (lb ! (a + i')) (pa ! (a + i')) \<noteq> [])"
      using same slot by (intro bex_cong refl) simp
    then show ?thesis unfolding c2 c1_def L_def t_def by auto
  qed
  have l: "length pa2 = length pa" using l2 l1 by simp
  show ?case using e l A B C by (intro exI [of _ c2] exI [of _ pa2]) blast
qed

lemma differs_differing:
  "differs (map tie cs) (map val cs) (tie u) (val u) =
     map val (filter (\<lambda>x. tie x = tie u \<and> val x \<noteq> val u) cs)"
  by (induction cs) (simp_all add: differs_def)

lemma fix_val_correction:
  "fix_val (map tie (flat_cells s)) (map val (flat_cells s)) (tie u) (val u) v =
     (case group_correction s u of None \<Rightarrow> v | Some w \<Rightarrow> w)"
proof -
  have d: "differs (map tie (flat_cells s)) (map val (flat_cells s)) (tie u) (val u) =
           map val (differing s u)"
    unfolding differing_def by (rule differs_differing)
  show ?thesis
  proof (cases "differing s u")
    case Nil
    then show ?thesis by (simp add: fix_val_def d group_correction_def)
  next
    case (Cons x r)
    then show ?thesis by (cases r) (simp_all add: fix_val_def d group_correction_def)
  qed
qed

lemma differs_correction:
  "differs (map tie (flat_cells s)) (map val (flat_cells s)) (tie u) (val u) \<noteq> [] \<longleftrightarrow>
   group_correction s u \<noteq> None"
proof -
  have d: "differs (map tie (flat_cells s)) (map val (flat_cells s)) (tie u) (val u) =
           map val (differing s u)"
    unfolding differing_def by (rule differs_differing)
  show ?thesis
  proof (cases "differing s u")
    case Nil
    then show ?thesis by (simp add: d group_correction_def)
  next
    case (Cons x r)
    then show ?thesis by (cases r) (simp_all add: d group_correction_def)
  qed
qed

lemma check_change_exact:
  assumes f: "fresh s" and dt: "distinct (map tie (tied_cells s))"
  shows "check_change s = Inr (check_change_spec s)"
proof (cases "tied_cells s = []")
  case True
  have "corrected_val s x = val x" for x by (simp add: corrected_val_def True)
  then have "map_cells (\<lambda>x. x\<lparr>val := corrected_val s x\<rparr>) s = s"
    by (intro map_cells_id) simp
  then show ?thesis
    using check_change_no_store [OF True] True by (simp add: check_change_spec_def)
next
  case False
  define cs where "cs = flat_cells s"
  define lb where "lb = map tie cs"
  define pa where "pa = map val cs"
  define a where "a = tie_start s"
  define n where "n = length (tied_cells s)"
  define bi where "bi = [a..<a + n]"
  obtain t where t: "tied_param s = Some t" "t \<noteq> []" "tied_cells s = t"
    using False by (cases "tied_param s") (auto simp: tied_cells_def)
  have lbs: "label_buf s = Some lb" and bis: "buf_idx s = Some bi"
    using f False by (simp_all add: fresh_def lb_def cs_def bi_def a_def n_def)
  have pas: "param_array s = pa" by (simp add: param_array_def pa_def cs_def)
  have len: "length lb = length pa" by (simp add: lb_def pa_def)
  have lcs: "length pa = length cs" by (simp add: pa_def)
  have idx: "\<forall>i\<in>set [0..<n]. i < length bi \<and> bi ! i = a + i \<and> a + i < length lb"
    using fresh_loop_indices(2) [of s] by (simp add: bi_def lb_def cs_def a_def n_def)
  have slot: "a + i < length cs \<and> cs ! (a + i) = tied_cells s ! i" if "i < n" for i
  proof -
    have "cs ! (a + i) = tied_cells s ! i"
      using tied_nth_flat [of i s] that by (simp add: cs_def a_def n_def)
    moreover have "a + i < length cs"
      using that tie_start_le [of s] by (simp add: cs_def a_def n_def length_flat_cells)
    ultimately show ?thesis by simp
  qed
  have lbi: "lb ! (a + i) = tie (tied_cells s ! i)" and pai: "pa ! (a + i) = val (tied_cells s ! i)"
    if "i < n" for i
    using slot [OF that] by (simp_all add: lb_def pa_def)
  have "map (\<lambda>i. lb ! (a + i)) [0..<n] = map tie (tied_cells s)"
    by (rule nth_equalityI) (simp_all add: n_def lbi)
  then have dl: "distinct (map (\<lambda>i. lb ! (a + i)) [0..<n])" using dt by simp
  from check_loop_exact [OF len idx dl, of False]
  obtain c pa' where r: "check_loop lb bi a [0..<n] False pa = Inr (c, pa')"
    and l': "length pa' = length pa"
    and mem: "\<forall>i\<in>set [0..<n]. \<forall>j<length pa. lb ! j = lb ! (a + i) \<longrightarrow>
                pa' ! j = fix_val lb pa (lb ! (a + i)) (pa ! (a + i)) (pa ! j)"
    and oth: "\<forall>j<length pa. (\<forall>i\<in>set [0..<n]. lb ! j \<noteq> lb ! (a + i)) \<longrightarrow> pa' ! j = pa ! j"
    and cc: "c \<longleftrightarrow> False \<or> (\<exists>i\<in>set [0..<n]. differs lb pa (lb ! (a + i)) (pa ! (a + i)) \<noteq> [])"
    by blast
  have cce: "check_change s = Inr (c, set_param_array s pa')"
    using t lbs bis r by (simp add: check_change_def a_def n_def pas)
  have fv: "fix_val lb pa (tie u) (val u) v = (case group_correction s u of None \<Rightarrow> v | Some w \<Rightarrow> w)"
    for u v
    unfolding lb_def pa_def cs_def by (rule fix_val_correction)
  have pn: "pa' ! j = corrected_val s (cs ! j)" if j: "j < length cs" for j
  proof (cases "find (\<lambda>t. tie t = tie (cs ! j)) (tied_cells s)")
    case None
    then have no: "\<And>u. u \<in> set (tied_cells s) \<Longrightarrow> tie u \<noteq> tie (cs ! j)"
      unfolding find_None_iff by blast
    have "\<forall>i\<in>set [0..<n]. lb ! j \<noteq> lb ! (a + i)"
    proof
      fix i assume "i \<in> set [0..<n]"
      then have i: "i < n" by simp
      then have "tied_cells s ! i \<in> set (tied_cells s)" by (simp add: n_def)
      then have "tie (tied_cells s ! i) \<noteq> tie (cs ! j)" by (rule no)
      then show "lb ! j \<noteq> lb ! (a + i)" unfolding lbi [OF i] using j by (simp add: lb_def)
    qed
    then have "pa' ! j = pa ! j" using oth j lcs by simp
    then show ?thesis using None j by (simp add: corrected_val_def pa_def)
  next
    case (Some u)
    then have "u \<in> set (tied_cells s)" and tu: "tie u = tie (cs ! j)"
      unfolding find_Some_iff by auto
    then obtain i where i: "i < n" "tied_cells s ! i = u"
      unfolding in_set_conv_nth n_def by blast
    have e: "lb ! j = lb ! (a + i)" unfolding lbi [OF i(1)] i(2) tu using j by (simp add: lb_def)
    have "pa' ! j = fix_val lb pa (lb ! (a + i)) (pa ! (a + i)) (pa ! j)"
      using mem i(1) j lcs e by simp
    also have "\<dots> = fix_val lb pa (tie u) (val u) (val (cs ! j))"
      unfolding lbi [OF i(1)] pai [OF i(1)] i(2) using j by (simp add: pa_def)
    finally show ?thesis unfolding fv using Some by (simp add: corrected_val_def)
  qed
  have "pa' = map (corrected_val s) cs"
    by (rule nth_equalityI) (simp_all add: l' lcs pn)
  then have st: "set_param_array s pa' = map_cells (\<lambda>x. x\<lparr>val := corrected_val s x\<rparr>) s"
    unfolding cs_def by (simp add: set_param_array_map)
  have dc: "differs lb pa (tie u) (val u) \<noteq> [] \<longleftrightarrow> group_correction s u \<noteq> None" for u
    unfolding lb_def pa_def cs_def by (rule differs_correction)
  have di: "differs lb pa (lb ! (a + i)) (pa ! (a + i)) \<noteq> [] \<longleftrightarrow>
            group_correction s (tied_cells s ! i) \<noteq> None" if "i < n" for i
    unfolding lbi [OF that] pai [OF that] by (rule dc)
  have "c \<longleftrightarrow> (\<exists>u\<in>set (tied_cells s). group_correction s u \<noteq> None)"
  proof
    assume c
    then obtain i where i: "i < n" "differs lb pa (lb ! (a + i)) (pa ! (a + i)) \<noteq> []"
      using cc by auto
    have "group_correction s (tied_cells s ! i) \<noteq> None" using i(2) di [OF i(1)] by blast
    moreover have "tied_cells s ! i \<in> set (tied_cells s)" using i(1) by (simp add: n_def)
    ultimately show "\<exists>u\<in>set (tied_cells s). group_correction s u \<noteq> None" by blast
  next
    assume "\<exists>u\<in>set (tied_cells s). group_correction s u \<noteq> None"
    then obtain u where u: "u \<in> set (tied_cells s)" "group_correction s u \<noteq> None" by blast
    then obtain i where i: "i < n" "tied_cells s ! i = u"
      unfolding in_set_conv_nth n_def by blast
    have "differs lb pa (lb ! (a + i)) (pa ! (a + i)) \<noteq> []"
      using u(2) di [OF i(1)] unfolding i(2) by blast
    then show c using cc i(1) by auto
  qed
  then show ?thesis unfolding cce st by (simp add: check_change_spec_def)
qed

subsection \<open>The notification handler\<close>

text \<open>
  Claim C10. A notification whose originator is the Tie object itself is ignored: the
  handler returns at once with the state it was given, so no change check, no broadcast
  and no gradient collation has run.
\<close>

theorem notification_from_self_ignored:
  "parameters_changed_notification s Self = Some (Inr s)"
  by (simp add: parameters_changed_notification_def)

subsection \<open>tie\_vector\<close>

text \<open>
  Claim C2, evaluated where exactly one side is tied: \<open>p1\<close> is the free leaf 2,
  \<open>p2\<close> is leaf 1, tied to leaf 0 under label 1. \<open>_get_labels_vector\<close> puts the
  position into \<open>expandlist\<close> (the product of the two labels is 0), so
  \<open>tie_vector\<close> allocates the new label 2 with a slot of its own and writes it over
  the adopted label 1 on both sides: leaf 1 leaves its group.
\<close>

theorem tie_vector_one_side_tied_new_slot:
  "get_labels_vector example_tied (Param 2) (Param 1) = Inr ([0], ([], []), [1]) \<and>
   labels_after (tie_vector example_tied (Param 2) (Param 1)) = Some ([[1], [2], [2]], [1, 2])"
  by code_simp

text \<open>
  Claim C8. When \<open>p1\<close> and \<open>p2\<close> have different numbers of elements,
  \<open>tie_vector\<close> raises, and the state at the raise is the state of the call with
  recompute suspended: no label, slot or value has been written.
\<close>

theorem tie_vector_length_mismatch:
  assumes "length (concat (map (leaf s) (traverse_param p1))) \<noteq>
           length (concat (map (leaf s) (traverse_param p2)))"
  shows "\<exists>e. tie_vector s p1 p2 = Some (Inl (e, s\<lparr>update_on := False\<rparr>))"
proof -
  have "\<exists>e. get_labels_vector (s\<lparr>update_on := False\<rparr>) p1 p2 = Inl e"
    using assms unfolding get_labels_vector_def Let_def leaf_update_on length_concat_labels
    by simp
  then show ?thesis
    by (auto simp: tie_vector_def update_model_def resume_def rbind_def tie_vector_body_def
        raise_in_def)
qed

theorem tie_vector_length_mismatch_witness:
  "length (concat (map (leaf example_free) (traverse_param (Param 0)))) \<noteq>
   length (concat (map (leaf example_free) (traverse_param (Parameterized [Param 0, Param 1])))) \<and>
   (\<exists>e. tie_vector example_free (Param 0) (Parameterized [Param 0, Param 1]) =
        Some (Inl (e, example_free\<lparr>update_on := False\<rparr>)))"
proof -
  have h: "length (concat (map (leaf example_free) (traverse_param (Param 0)))) \<noteq>
           length (concat (map (leaf example_free)
             (traverse_param (Parameterized [Param 0, Param 1]))))"
    by (simp add: leaf_def example_free_def)
  from tie_vector_length_mismatch [OF h] h show ?thesis by blast
qed

subsection \<open>collate\_gradient\<close>

text \<open>
  Claim C5. With an up-to-date label buffer and one slot per label, \<open>collate_gradient\<close>
  returns, leaves the leaves and the labels of the store as they were, and gives every
  slot the sum of the gradients of the leaf positions that carry its label.
\<close>

theorem collate_gradient_sums:
  assumes "fresh s" and "distinct (map tie (tied_cells s))"
  shows "\<exists>s'. collate_gradient s = Inr s' \<and> params s' = params s \<and>
           map tie (tied_cells s') = map tie (tied_cells s) \<and>
           (\<forall>t\<in>set (tied_cells s').
              grad t = sum_list (map grad (filter (\<lambda>c. tie c = tie t) (concat (params s')))))"
proof -
  from collate_gradient_fresh [OF assms(1)] assms(2)
  obtain gs where r: "collate_gradient s = Inr (with_slot_grads s gs)"
    and l: "length gs = length (tied_cells s)"
    and g: "\<forall>i<length (tied_cells s).
              gs ! i = sum_list (map grad (filter (\<lambda>c. tie c = tie (tied_cells s ! i))
                                             (concat (params s))))"
    by blast
  let ?s' = "with_slot_grads s gs"
  have tc: "tied_cells ?s' = set_grads (tied_cells s) gs"
    by (rule tied_cells_with_slot_grads)
  note sp = set_grads_props [OF l]
  have "grad t = sum_list (map grad (filter (\<lambda>c. tie c = tie t) (concat (params ?s'))))"
    if "t \<in> set (tied_cells ?s')" for t
  proof -
    from that obtain i where i: "i < length (tied_cells s)" "set_grads (tied_cells s) gs ! i = t"
      unfolding tc in_set_conv_nth sp(4) by blast
    have "grad t = map grad (set_grads (tied_cells s) gs) ! i"
      using i sp(4) by simp
    then have gt: "grad t = gs ! i" unfolding sp(3) .
    have "tie t = map tie (set_grads (tied_cells s) gs) ! i"
      using i sp(4) by simp
    then have tt: "tie t = tie (tied_cells s ! i)" unfolding sp(2) using i(1) by simp
    show ?thesis unfolding gt tt using g i(1) by simp
  qed
  then show ?thesis using r tc sp(2) by (intro exI [of _ ?s']) simp
qed

theorem collate_gradient_sums_witness:
  "fresh example_tied \<and> distinct (map tie (tied_cells example_tied)) \<and>
   (\<exists>s'. collate_gradient example_tied = Inr s' \<and> params s' = params example_tied \<and>
      map tie (tied_cells s') = map tie (tied_cells example_tied) \<and>
      (\<forall>t\<in>set (tied_cells s').
         grad t = sum_list (map grad (filter (\<lambda>c. tie c = tie t) (concat (params s'))))))"
proof -
  have f: "fresh example_tied"
    by (simp add: fresh_def example_tied_def flat_cells_def tie_start_def tied_cells_def
        example_cell_def)
  have d: "distinct (map tie (tied_cells example_tied))"
    by (simp add: example_tied_def tied_cells_def)
  from collate_gradient_sums [OF f d] f d show ?thesis by blast
qed

subsection \<open>Pruning\<close>

text \<open>
  Claim C6. \<open>_remove_unnecessary_ties\<close> with the label buffer \<open>lb\<close>: the slots that
  stay are, in order and with their values, those whose label is counted more than twice
  in \<open>lb\<close>; every leaf position whose label is a slot's label counted at most twice is
  reset to 0, and no other label changes.
\<close>

theorem remove_unnecessary_ties_prunes:
  assumes lb: "label_buf s = Some lb"
  shows "\<exists>s'. remove_unnecessary_ties s = Inr s' \<and>
           map tie (tied_cells s') =
             map tie (filter (\<lambda>t. 2 < length (filter (\<lambda>x. x = tie t) lb)) (tied_cells s)) \<and>
           map val (tied_cells s') =
             map val (filter (\<lambda>t. 2 < length (filter (\<lambda>x. x = tie t) lb)) (tied_cells s)) \<and>
           params s' =
             map (map (\<lambda>c. if tie c \<in> tie ` set (tied_cells s) \<and>
                               length (filter (\<lambda>x. x = tie c) lb) \<le> 2
                            then c\<lparr>tie := 0\<rparr> else c)) (params s)"
  using lb by (rule remove_unnecessary_ties_filter)

theorem remove_unnecessary_ties_prunes_witness:
  "label_buf example_collapsed = Some [1, 0, 0, 1] \<and>
   (\<exists>s'. remove_unnecessary_ties example_collapsed = Inr s' \<and>
      map tie (tied_cells s') =
        map tie (filter (\<lambda>t. 2 < length (filter (\<lambda>x. x = tie t) [1, 0, 0, 1]))
                   (tied_cells example_collapsed)) \<and>
      map val (tied_cells s') =
        map val (filter (\<lambda>t. 2 < length (filter (\<lambda>x. x = tie t) [1, 0, 0, 1]))
                   (tied_cells example_collapsed)) \<and>
      params s' =
        map (map (\<lambda>c. if tie c \<in> tie ` set (tied_cells example_collapsed) \<and>
                          length (filter (\<lambda>x. x = tie c) [1, 0, 0, 1]) \<le> 2
                       then c\<lparr>tie := 0\<rparr> else c)) (params example_collapsed))"
proof -
  have h: "label_buf example_collapsed = Some [1, 0, 0, 1]"
    by (simp add: example_collapsed_def)
  from remove_unnecessary_ties_prunes [OF h] h show ?thesis by blast
qed

subsection \<open>tie\_together\<close>

text \<open>
  Claim C1, at a state where the code breaks it. In \<open>example_tied\<close> leaves 0 and 1
  are tied under label 1 at the value 3 and leaf 2 is free at 6. \<open>tie_together\<close> on
  leaves 0 and 2 returns with all three leaves under label 1; leaves 0 and 2 and the slot
  of label 1 hold the mean 4.5, and leaf 1, a member of the same group, still holds 3.
\<close>

theorem tie_together_leaves_member_behind:
  "labels_after (tie_together example_tied [Param 0, Param 2]) =
     Some ([[1], [1], [1]], [1]) \<and>
   vals_after (tie_together example_tied [Param 0, Param 2]) =
     Some ([[9 / 2], [3], [9 / 2]], [9 / 2])"
  by code_simp

subsection \<open>untie\<close>

text \<open>
  Claim C9. Every call of \<open>untie\<close> ends, and in the state it leaves behind, whether it
  returned or raised, every leaf holds the values it held before the call; every slot
  that is left is a slot of before with its label and value.
\<close>

theorem untie_keeps_values:
  "\<exists>r. untie s plist = Some r \<and>
     map (map val) (params (outcome_state r)) = map (map val) (params s) \<and>
     (\<forall>t\<in>set (tied_cells (outcome_state r)). \<exists>u\<in>set (tied_cells s).
        tie t = tie u \<and> val t = val u)"
proof -
  from untie_outcome obtain r where "untie s plist = Some r" "loosened s (outcome_state r)"
    by blast
  then show ?thesis using loosened_frame by blast
qed

theorem untie_keeps_values_witness:
  "\<exists>s'. untie example_tied [Param 1] = Some (Inr s') \<and>
     map (map val) (params s') = map (map val) (params example_tied) \<and>
     (\<forall>t\<in>set (tied_cells s'). \<exists>u\<in>set (tied_cells example_tied).
        tie t = tie u \<and> val t = val u)"
proof -
  have "completed (untie example_tied [Param 1])" by code_simp
  then obtain s' where e: "untie example_tied [Param 1] = Some (Inr s')"
    using completedD by blast
  from untie_keeps_values [of example_tied "[Param 1]"] e show ?thesis
    by (auto simp: outcome_state_def)
qed

subsection \<open>The mean of two\<close>

text \<open>
  Claim C3. In a state whose labels are in order, \<open>tie_together\<close> on two untied scalar
  leaves that hold 2 and 4 returns; both leaves then hold 3 and carry the new label, and
  the store has one more slot, the last, with that label and the value 3.
\<close>

theorem tie_together_mean_of_two:
  assumes "well_labelled s"
    and "map val (leaf s a) = [2]" and "map val (leaf s b) = [4]"
    and "map tie (leaf s a) = [0]" and "map tie (leaf s b) = [0]"
  shows "\<exists>s'. tie_together s [Param a, Param b] = Some (Inr s') \<and>
           map val (leaf s' a) = [3] \<and> map val (leaf s' b) = [3] \<and>
           map tie (leaf s' a) = [new_label s] \<and> map tie (leaf s' b) = [new_label s] \<and>
           new_label s \<notin> tie ` set (tied_cells s) \<and>
           map tie (tied_cells s') = map tie (tied_cells s) @ [new_label s] \<and>
           val (last (tied_cells s')) = 3"
proof -
  let ?plist = "[Param a, Param b]"
  have ks: "leaves_of ?plist = [a, b]" by (simp add: leaves_of_def)
  from assms(2,4) obtain ca where ca: "leaf s a = [ca]" "val ca = 2" "tie ca = 0" by auto
  from assms(3,5) obtain cb where cb: "leaf s b = [cb]" "val cb = 4" "tie cb = 0" by auto
  have u: "\<forall>k\<in>set (leaves_of ?plist). \<forall>x\<in>set (leaf s k). tie x = 0"
    unfolding ks using ca cb by simp
  have n: "\<exists>k\<in>set (leaves_of ?plist). leaf s k \<noteq> []" unfolding ks using ca by simp
  have v: "(3::real) = mean (concat (map (\<lambda>p. concat (map (\<lambda>k. map val (leaf s k))
                                              (traverse_param p))) ?plist))"
    using ca cb by (simp add: mean_def)
  from tie_together_untied_post [OF assms(1) u n v] obtain s' where
    r: "tie_together s ?plist = Some (Inr s')"
    and lf: "\<forall>k\<in>set (leaves_of ?plist).
              leaf s' k = map (\<lambda>c. c\<lparr>val := 3, tie := new_label s\<rparr>) (leaf s k)"
    and tt: "map tie (tied_cells s') = map tie (tied_cells s) @ [new_label s]"
    and vl: "val (last (tied_cells s')) = 3" by blast
  have la: "leaf s' a = [ca\<lparr>val := 3, tie := new_label s\<rparr>]"
    and lb: "leaf s' b = [cb\<lparr>val := 3, tie := new_label s\<rparr>]"
    using lf ca(1) cb(1) unfolding ks by simp_all
  have "new_label s \<notin> tie ` set (tied_cells s)" using new_label_above(2) [of s] by auto
  then show ?thesis using r la lb tt vl by (intro exI [of _ s']) simp
qed

theorem tie_together_mean_of_two_witness:
  "well_labelled example_free \<and>
   map val (leaf example_free 0) = [2] \<and> map val (leaf example_free 1) = [4] \<and>
   map tie (leaf example_free 0) = [0] \<and> map tie (leaf example_free 1) = [0] \<and>
   (\<exists>s'. tie_together example_free [Param 0, Param 1] = Some (Inr s') \<and>
      map val (leaf s' 0) = [3] \<and> map val (leaf s' 1) = [3] \<and>
      map tie (leaf s' 0) = [new_label example_free] \<and>
      map tie (leaf s' 1) = [new_label example_free] \<and>
      new_label example_free \<notin> tie ` set (tied_cells example_free) \<and>
      map tie (tied_cells s') = map tie (tied_cells example_free) @ [new_label example_free] \<and>
      val (last (tied_cells s')) = 3)"
proof -
  have w: "well_labelled example_free"
    by (simp add: well_labelled_def example_free_def tied_cells_def example_cell_def)
  have l: "map val (leaf example_free 0) = [2]" "map val (leaf example_free 1) = [4]"
    "map tie (leaf example_free 0) = [0]" "map tie (leaf example_free 1) = [0]"
    by (simp_all add: example_free_def leaf_def example_cell_def)
  from tie_together_mean_of_two [OF w l] w l show ?thesis by blast
qed

subsection \<open>Tying and untying\<close>

text \<open>
  Claim C7. In a state whose labels are in order, with \<open>a\<close> and \<open>b\<close> untied and not
  both empty, \<open>tie_together\<close> on the two returns and makes a slot with the new label;
  \<open>untie\<close> on the two then returns too, no slot with that label is left, the cells of
  \<open>a\<close> and \<open>b\<close> carry the label 0, and a store that was empty before is empty again.
\<close>

theorem tie_untie_round_trip:
  assumes wl: "well_labelled s"
    and ua: "\<forall>x\<in>set (leaf s a). tie x = 0" and ub: "\<forall>x\<in>set (leaf s b). tie x = 0"
    and ne: "leaf s a \<noteq> [] \<or> leaf s b \<noteq> []"
  shows "\<exists>s' s''. tie_together s [Param a, Param b] = Some (Inr s') \<and>
           untie s' [Param a, Param b] = Some (Inr s'') \<and>
           new_label s \<in> tie ` set (tied_cells s') \<and>
           new_label s \<notin> tie ` set (tied_cells s'') \<and>
           (\<forall>x\<in>set (leaf s'' a). tie x = 0) \<and> (\<forall>x\<in>set (leaf s'' b). tie x = 0) \<and>
           (tied_cells s = [] \<longrightarrow> tied_cells s'' = [])"
proof -
  let ?plist = "[Param a, Param b]"
  define L where "L = new_label s"
  have ks: "leaves_of ?plist = [a, b]" by (simp add: leaves_of_def)
  have u: "\<forall>k\<in>set (leaves_of ?plist). \<forall>x\<in>set (leaf s k). tie x = 0"
    unfolding ks using ua ub by simp
  have n: "\<exists>k\<in>set (leaves_of ?plist). leaf s k \<noteq> []" unfolding ks using ne by auto
  from tie_together_untied_post [OF wl u n refl] obtain s' where
    r1: "tie_together s ?plist = Some (Inr s')"
    and oth: "\<And>k. k \<notin> set [a, b] \<Longrightarrow> map tie (leaf s' k) = map tie (leaf s k)"
    and tt: "map tie (tied_cells s') = map tie (tied_cells s) @ [L]"
    unfolding ks L_def by blast
  have pos: "0 < L" and above: "\<forall>t\<in>set (tied_cells s). tie t < L"
    unfolding L_def by (rule new_label_above)+
  have ties': "tie ` set (tied_cells s') = tie ` set (tied_cells s) \<union> {L}"
    using arg_cong [OF tt, of set] by simp
  have pos': "\<forall>t\<in>set (tied_cells s'). 0 < tie t"
  proof
    fix t assume "t \<in> set (tied_cells s')"
    then have "tie t \<in> tie ` set (tied_cells s) \<union> {L}" unfolding ties' [symmetric] by simp
    then show "0 < tie t" using pos wl unfolding well_labelled_def by auto
  qed
  define sA where "sA = set_labels (s'\<lparr>update_on := False\<rparr>) ?plist [0]"
  from untie_returns [OF pos', of ?plist] obtain s'' where
    r2: "untie s' ?plist = Some (Inr s'')"
    and z: "\<forall>k\<in>set [a, b]. \<forall>x\<in>set (leaf s'' k). tie x = 0"
    and kept: "\<forall>t\<in>set (tied_cells s''). \<exists>u\<in>set (tied_cells s'). tie t = tie u \<and>
              2 < length (filter (\<lambda>x. tie x = tie u) (concat (params sA))) +
                  length (filter (\<lambda>x. tie x = tie u) (tied_cells s'))"
    unfolding ks sA_def by blast
  have sA: "sA = foldl (set_l1 0) (s'\<lparr>update_on := False\<rparr>) [a, b]"
    unfolding sA_def set_labels_one ks ..
  have noL: "tie x \<noteq> L" if x: "x \<in> set (concat (params sA))" for x
  proof -
    from x obtain k where k: "x \<in> set (leaf sA k)" unfolding in_concat_params_leaf ..
    show ?thesis
    proof (cases "k \<in> set [a, b]")
      case True
      then have "leaf sA k = map (\<lambda>c. c\<lparr>tie := 0\<rparr>) (leaf s' k)"
        unfolding sA set_l1_foldl(1) by simp
      then have "tie x = 0" using k by auto
      then show ?thesis using pos by simp
    next
      case False
      then have "leaf sA k = leaf s' k" unfolding sA set_l1_foldl(1) by simp
      then have "tie x \<in> set (map tie (leaf s' k))" using k by simp
      then have "tie x \<in> set (map tie (leaf s k))" unfolding oth [OF False] .
      then obtain y where y: "y \<in> set (leaf s k)" "tie x = tie y" by auto
      from y(1) have "y \<in> set (concat (params s))" unfolding in_concat_params_leaf ..
      then have "tie y = 0 \<or> tie y \<in> tie ` set (tied_cells s)"
        using wl unfolding well_labelled_def by blast
      then show ?thesis using y(2) pos above by auto
    qed
  qed
  have c1: "filter (\<lambda>x. tie x = L) (concat (params sA)) = []"
    unfolding filter_empty_conv using noL by blast
  have f0: "filter (\<lambda>l. l = L) (map tie (tied_cells s)) = []"
    unfolding filter_empty_conv using above by auto
  have "length (filter (\<lambda>x. tie x = L) (tied_cells s')) =
        length (filter (\<lambda>l. l = L) (map tie (tied_cells s')))"
    by (simp add: filter_map comp_def)
  also have "\<dots> = 1" unfolding tt filter_append f0 by simp
  finally have c2: "length (filter (\<lambda>x. tie x = L) (tied_cells s')) = 1" .
  have gone: "L \<notin> tie ` set (tied_cells s'')"
  proof
    assume "L \<in> tie ` set (tied_cells s'')"
    then obtain t where t: "t \<in> set (tied_cells s'')" and tl: "tie t = L" by auto
    from kept t obtain u :: cell where u: "tie t = tie u \<and>
      2 < length (filter (\<lambda>x. tie x = tie u) (concat (params sA))) +
           length (filter (\<lambda>x. tie x = tie u) (tied_cells s'))" by blast
    then have ul: "tie u = L" using tl by simp
    from u have "2 < length (filter (\<lambda>x. tie x = L) (concat (params sA))) +
           length (filter (\<lambda>x. tie x = L) (tied_cells s'))" unfolding ul by blast
    then show False unfolding c1 c2 by simp
  qed
  have emp: "tied_cells s'' = []" if "tied_cells s = []"
  proof (rule ccontr)
    assume "tied_cells s'' \<noteq> []"
    then obtain t where t: "t \<in> set (tied_cells s'')" by (cases "tied_cells s''") auto
    with kept obtain u where "u \<in> set (tied_cells s')" "tie t = tie u" by blast
    then have "tie t = L" using ties' that by auto
    then show False using gone t by auto
  qed
  have "L \<in> tie ` set (tied_cells s')" unfolding ties' by simp
  then show ?thesis
    using r1 r2 gone z emp unfolding L_def by (intro exI [of _ s'] exI [of _ s'']) simp
qed

theorem tie_untie_round_trip_witness:
  "well_labelled example_free \<and>
   map tie (leaf example_free 0) = [0] \<and> map tie (leaf example_free 1) = [0] \<and>
   leaf example_free 0 \<noteq> [] \<and> leaf example_free 1 \<noteq> [] \<and> tied_cells example_free = [] \<and>
   (\<exists>s' s''. tie_together example_free [Param 0, Param 1] = Some (Inr s') \<and>
      untie s' [Param 0, Param 1] = Some (Inr s'') \<and>
      new_label example_free \<in> tie ` set (tied_cells s') \<and>
      new_label example_free \<notin> tie ` set (tied_cells s'') \<and>
      (\<forall>x\<in>set (leaf s'' 0). tie x = 0) \<and> (\<forall>x\<in>set (leaf s'' 1). tie x = 0) \<and>
      tied_cells s'' = [])"
proof -
  have w: "well_labelled example_free"
    by (simp add: well_labelled_def example_free_def tied_cells_def example_cell_def)
  have l: "\<forall>x\<in>set (leaf example_free 0). tie x = 0" "\<forall>x\<in>set (leaf example_free 1). tie x = 0"
    "leaf example_free 0 \<noteq> [] \<or> leaf example_free 1 \<noteq> []"
    by (simp_all add: example_free_def leaf_def example_cell_def)
  have n: "leaf example_free 0 \<noteq> []" "leaf example_free 1 \<noteq> []"
    by (simp_all add: example_free_def leaf_def)
  have e: "tied_cells example_free = []" by (simp add: example_free_def tied_cells_def)
  have t: "map tie (leaf example_free 0) = [0]" "map tie (leaf example_free 1) = [0]"
    by (simp_all add: example_free_def leaf_def example_cell_def)
  from tie_untie_round_trip [OF w l] w t n e show ?thesis by blast
qed

subsection \<open>The change check\<close>

text \<open>
  Claim C4. With an up-to-date label buffer and one slot per label, \<open>_check_change\<close>
  returns what the specification says: a group none of whose members differs from its
  slot is left as it is; when exactly one member differs, every position of the group, the
  slot included, takes that member's value; when two or more differ, every position takes
  the slot's value; positions of no group keep their values; and the flag returned tells
  whether any group required correction.
\<close>

theorem check_change_refines:
  assumes "fresh s" and "distinct (map tie (tied_cells s))"
  shows "check_change s = Inr (check_change_spec s)"
  using assms by (rule check_change_exact)

theorem check_change_refines_witness:
  "fresh example_edited \<and> distinct (map tie (tied_cells example_edited)) \<and>
   check_change example_edited = Inr (check_change_spec example_edited) \<and>
   fst (check_change_spec example_edited) \<and>
   map (map val) (params (snd (check_change_spec example_edited))) = [[5], [5], [6]] \<and>
   map val (tied_cells (snd (check_change_spec example_edited))) = [5]"
proof -
  have f: "fresh example_edited"
    by (simp add: fresh_def example_edited_def flat_cells_def tie_start_def tied_cells_def
        example_cell_def)
  have d: "distinct (map tie (tied_cells example_edited))"
    by (simp add: example_edited_def tied_cells_def)
  have v: "fst (check_change_spec example_edited) \<and>
   map (map val) (params (snd (check_change_spec example_edited))) = [[5], [5], [6]] \<and>
   map val (tied_cells (snd (check_change_spec example_edited))) = [5]"
    by code_simp
  from check_change_refines [OF f d] f d v show ?thesis by blast
qed

end
